theory Spec2Isabelle
  imports
    Main
    "HOL-Library.Char_ord"
    "HOL-Library.List_Lexorder"
    "HOL-Library.Monad_Syntax"
    "HOL-Library.Multiset"
begin

section \<open>Machine integers\<close>

text \<open>
  The C++ types \<open>ulint\<close>, \<open>size_t\<close> and \<open>uint64_t\<close> are 64-bit unsigned integers.
  They are modelled as natural numbers; \<open>u64\<close> is written at every place where the
  source computes a value that can leave the range, so that the wrap-around of the
  machine is part of the model.  A byte (\<open>uchar\<close>) is a \<open>char\<close>: one of 256 values,
  ordered by its code.
\<close>

type_synonym ulint = nat
type_synonym uchar = char

definition u64 :: "nat \<Rightarrow> ulint" where
  "u64 x = x mod 18446744073709551616"

definition u64_dec :: "ulint \<Rightarrow> ulint" where
  \<comment> \<open>\<open>x--\<close> on a 64-bit unsigned value\<close>
  "u64_dec x = u64 (x + 18446744073709551615)"

text \<open>
  The queries receive the pattern as \<open>const char*\<close>, so a character \<open>c\<close> read from it is a
  plain \<open>char\<close>, which is a signed 8-bit type on x86-64 and is taken so here.  Where \<open>c\<close> is
  passed to a parameter of type \<open>uchar\<close> (\<open>number_of_letter\<close>, \<open>rank\<close>, \<open>select\<close>, \<open>LF\<close>) the
  conversion gives back the byte.  In the test \<open>bwt[pos] == c\<close> both operands are promoted
  to \<open>int\<close>, the byte of the BWT to a value from 0 to 255 and \<open>c\<close> to \<open>char_value c\<close>, so the
  test fails for every byte from \<open>0x80\<close> on.
\<close>

definition char_value :: "uchar \<Rightarrow> int" where
  \<comment> \<open>the value of a plain \<open>char\<close> that holds the byte \<open>c\<close>\<close>
  "char_value c = (if of_char c < (128::nat) then int (of_char c) else int (of_char c) - 256)"

definition same_char :: "uchar \<Rightarrow> uchar \<Rightarrow> bool" where
  \<comment> \<open>\<open>b == c\<close> for a \<open>uchar\<close> \<open>b\<close> and a plain \<open>char\<close> \<open>c\<close>\<close>
  "same_char b c \<longleftrightarrow> int (of_char b) = char_value c"

section \<open>The run-length BWT\<close>

text \<open>
  Modelled from the spec: the class \<open>rle_string_t\<close> (\<open>ms_rle_string_sd\<close>) is declared in
  headers that are not part of the sources.  Section 4.1 of the specification gives its
  operations; they are defined here on the sequence of bytes that the run-length encoding
  stands for.  Where the specification gives no result (a \<open>select\<close> beyond the last
  occurrence, a run id of a position outside the BWT) the model returns \<open>None\<close>.
\<close>

type_synonym rle_string = "uchar list"

definition size_bwt :: "rle_string \<Rightarrow> ulint" where
  \<comment> \<open>Modelled from the spec: \<open>size() \<rightarrow> n\<close>\<close>
  "size_bwt b = length b"

definition number_of_letter :: "rle_string \<Rightarrow> uchar \<Rightarrow> ulint" where
  \<comment> \<open>Modelled from the spec: \<open>number_of_letter(c) \<rightarrow> occ(c, BWT)\<close>\<close>
  "number_of_letter b c = count_list b c"

definition rank :: "rle_string \<Rightarrow> ulint \<Rightarrow> uchar \<Rightarrow> ulint" where
  \<comment> \<open>Modelled from the spec: number of occurrences of \<open>c\<close> in \<open>BWT[0..i)\<close>\<close>
  "rank b i c = count_list (take i b) c"

definition occurrences :: "rle_string \<Rightarrow> uchar \<Rightarrow> nat list" where
  "occurrences b c = filter (\<lambda>i. b ! i = c) [0..<length b]"

definition select :: "rle_string \<Rightarrow> ulint \<Rightarrow> uchar \<Rightarrow> ulint option" where
  \<comment> \<open>Modelled from the spec: position of the \<open>(k+1)\<close>-th occurrence of \<open>c\<close>, 0-indexed\<close>
  "select b k c =
     (if k < length (occurrences b c) then Some (occurrences b c ! k) else None)"

definition run_heads :: "rle_string \<Rightarrow> nat list" where
  \<comment> \<open>the positions after the first at which a new equal-letter run starts\<close>
  "run_heads b = filter (\<lambda>j. b ! j \<noteq> b ! (j - 1)) [1..<length b]"

definition run_of_position :: "rle_string \<Rightarrow> ulint \<Rightarrow> ulint option" where
  \<comment> \<open>Modelled from the spec: id of the run containing position \<open>i\<close>\<close>
  "run_of_position b i =
     (if i < length b then Some (length (filter (\<lambda>j. j \<le> i) (run_heads b))) else None)"

definition number_of_runs :: "rle_string \<Rightarrow> ulint" where
  \<comment> \<open>Modelled from the spec: \<open>number_of_runs() \<rightarrow> r\<close>\<close>
  "number_of_runs b = (if b = [] then 0 else Suc (length (run_heads b)))"

definition at :: "'a list \<Rightarrow> ulint \<Rightarrow> 'a option" where
  \<comment> \<open>\<open>v[i]\<close> on a vector; an index outside the vector has no defined result\<close>
  "at v i = (if i < length v then Some (v ! i) else None)"

section \<open>The index classes\<close>

text \<open>
  \<open>pml_pointers\<close> and \<open>ms_pointers\<close> both derive from \<open>ri::r_index\<close>, whose members
  \<open>bwt\<close>, \<open>F\<close>, \<open>terminator_position\<close>, \<open>r\<close> and \<open>samples_last\<close> they use through
  \<open>this\<close>.  Both add \<open>thresholds\<close> and \<open>num_runs\<close>; \<open>ms_pointers\<close> adds \<open>samples_start\<close>.
  The records follow that layout, \<open>ms_pointers\<close> extending \<open>pml_pointers\<close> so that the
  members the two classes declare alike have one name.
\<close>

record r_index =
  bwt :: rle_string
  F :: "ulint list"
  terminator_position :: ulint
  r :: ulint
  samples_last :: "ulint list"

record pml_pointers = r_index +
  thresholds :: "ulint list"
  num_runs :: ulint

record ms_pointers = pml_pointers +
  samples_start :: "ulint list"

record DocumentArray =
  start_runs_doc :: "ulint list"
  end_runs_doc :: "ulint list"

definition bwt_size :: "'a r_index_scheme \<Rightarrow> ulint" where
  \<comment> \<open>Modelled from the spec: \<open>r_index::bwt_size()\<close>, the length \<open>n\<close> of the BWT\<close>
  "bwt_size idx = size_bwt (bwt idx)"

definition get_last_run_sample :: "'a r_index_scheme \<Rightarrow> ulint option" where
  \<comment> \<open>Modelled from the spec: \<open>r_index::get_last_run_sample()\<close>; section 4.5 gives the
      initial sample as \<open>samples_last[r-1]\<close>\<close>
  "get_last_run_sample idx = at (samples_last idx) (u64_dec (r idx))"

definition LF :: "'a r_index_scheme \<Rightarrow> ulint \<Rightarrow> uchar \<Rightarrow> ulint option" where
  "LF idx i c = do {
     let c_before = rank (bwt idx) i c;
     f \<leftarrow> at (F idx) (of_char c);
     Some (u64 (f + c_before))
   }"

section \<open>The PML query\<close>

text \<open>
  \<open>pml_pointers::_query\<close> (without document numbers).  The body of the \<open>for\<close> loop up to
  the assignment \<open>pos = next_pos\<close> is \<open>pml_update\<close>; it maps the state \<open>(pos, length)\<close> to
  the new one.  \<open>None\<close> stands for an access the source leaves undefined.  The
  counter \<open>length\<close> is declared \<open>auto length = 0\<close>, an \<open>int\<close>: \<open>length++\<close> at
  \<open>INT_MAX\<close> is a signed overflow, which C++ leaves undefined as well.
\<close>

definition INT_MAX :: nat where
  "INT_MAX = 2147483647"

definition pml_update :: "'a pml_pointers_scheme \<Rightarrow> uchar \<Rightarrow> ulint \<times> nat \<Rightarrow> (ulint \<times> nat) option" where
  "pml_update idx c st =
     (case st of (pos, len) \<Rightarrow>
       if number_of_letter (bwt idx) c = 0 then Some (pos, 0)
       else if pos < size_bwt (bwt idx) \<and> same_char (bwt idx ! pos) c then
         (if len < INT_MAX then Some (pos, len + 1) else None)
       else do {
         let rnk = rank (bwt idx) pos c;
         (thr, len1, next1) \<leftarrow>
           (if rnk < number_of_letter (bwt idx) c then do {
              j \<leftarrow> select (bwt idx) rnk c;
              run_of_j \<leftarrow> run_of_position (bwt idx) j;
              t \<leftarrow> at (thresholds idx) run_of_j;
              Some (t, 0, j)
            } else Some (u64 (size_bwt (bwt idx) + 1), len, pos));
         (len2, next2) \<leftarrow>
           (if pos < thr then do {
              j \<leftarrow> select (bwt idx) (u64_dec rnk) c;
              run_of_j \<leftarrow> run_of_position (bwt idx) j;
              Some (0, j)
            } else Some (len1, next1));
         Some (next2, len2)
       })"

function pml_for ::
  "'a pml_pointers_scheme \<Rightarrow> uchar list \<Rightarrow> nat \<Rightarrow> nat \<Rightarrow> ulint \<times> nat \<Rightarrow> nat list \<Rightarrow> nat list option"
where
  "pml_for idx pattern m i st lengths =
     (if i < m then do {
        let c = pattern ! (m - i - 1);
        (pos, len) \<leftarrow> pml_update idx c st;
        let lengths = lengths[m - i - 1 := len];
        pos \<leftarrow> LF idx pos c;
        pml_for idx pattern m (Suc i) (pos, len) lengths
      } else Some lengths)"
  by pat_completeness auto
termination
  by (relation "measure (\<lambda>(idx, pattern, m, i, st, lengths). m - i)") auto

declare pml_for.simps [simp del]

definition pml_query :: "'a pml_pointers_scheme \<Rightarrow> uchar list \<Rightarrow> nat list option" where
  \<comment> \<open>\<open>_query(pattern, m, lengths)\<close> with \<open>m\<close> the length of the pattern\<close>
  "pml_query idx pattern =
     pml_for idx pattern (length pattern) 0
       (u64_dec (bwt_size idx), 0) (replicate (length pattern) 0)"

text \<open>
  The same loop as a recursion over the characters in the order the loop reads them
  (the pattern reversed); the values are listed in the order they are emitted.
\<close>

fun pml_run :: "'a pml_pointers_scheme \<Rightarrow> uchar list \<Rightarrow> ulint \<times> nat \<Rightarrow> nat list option" where
  "pml_run idx [] st = Some []"
| "pml_run idx (c # cs) st = do {
     (pos, len) \<leftarrow> pml_update idx c st;
     pos \<leftarrow> LF idx pos c;
     out \<leftarrow> pml_run idx cs (pos, len);
     Some (len # out)
   }"

text \<open>
  \<open>pml_pointers::_query\<close> with document numbers.  The state carries \<open>curr_doc_id\<close>, which
  starts as \<open>doc_arr.end_runs_doc[number_of_runs() - 1]\<close>; the loop fills \<open>lengths\<close> and
  \<open>doc_nums\<close>.
\<close>

definition pml_update_doc ::
  "'a pml_pointers_scheme \<Rightarrow> DocumentArray \<Rightarrow> uchar \<Rightarrow> ulint \<times> nat \<times> ulint \<Rightarrow> (ulint \<times> nat \<times> ulint) option"
where
  "pml_update_doc idx doc_arr c st =
     (case st of (pos, len, curr_doc_id) \<Rightarrow>
       if number_of_letter (bwt idx) c = 0 then Some (pos, 0, curr_doc_id)
       else if pos < size_bwt (bwt idx) \<and> same_char (bwt idx ! pos) c then
         (if len < INT_MAX then Some (pos, len + 1, curr_doc_id) else None)
       else do {
         let rnk = rank (bwt idx) pos c;
         (thr, curr1, len1, next1) \<leftarrow>
           (if rnk < number_of_letter (bwt idx) c then do {
              j \<leftarrow> select (bwt idx) rnk c;
              run_of_j \<leftarrow> run_of_position (bwt idx) j;
              t \<leftarrow> at (thresholds idx) run_of_j;
              d \<leftarrow> at (start_runs_doc doc_arr) run_of_j;
              Some (t, d, 0, j)
            } else Some (u64 (size_bwt (bwt idx) + 1), curr_doc_id, len, pos));
         (curr2, len2, next2) \<leftarrow>
           (if pos < thr then do {
              j \<leftarrow> select (bwt idx) (u64_dec rnk) c;
              run_of_j \<leftarrow> run_of_position (bwt idx) j;
              d \<leftarrow> at (end_runs_doc doc_arr) run_of_j;
              Some (d, 0, j)
            } else Some (curr1, len1, next1));
         Some (next2, len2, curr2)
       })"

function pml_for_doc ::
  "'a pml_pointers_scheme \<Rightarrow> DocumentArray \<Rightarrow> uchar list \<Rightarrow> nat \<Rightarrow> nat \<Rightarrow>
   ulint \<times> nat \<times> ulint \<Rightarrow> nat list \<times> ulint list \<Rightarrow> (nat list \<times> ulint list) option"
where
  "pml_for_doc idx doc_arr pattern m i st out =
     (if i < m then do {
        let c = pattern ! (m - i - 1);
        (pos, len, curr_doc_id) \<leftarrow> pml_update_doc idx doc_arr c st;
        let out = (case out of (lengths, doc_nums) \<Rightarrow>
                     (lengths[m - i - 1 := len], doc_nums[m - i - 1 := curr_doc_id]));
        pos \<leftarrow> LF idx pos c;
        pml_for_doc idx doc_arr pattern m (Suc i) (pos, len, curr_doc_id) out
      } else Some out)"
  by pat_completeness auto
termination
  by (relation "measure (\<lambda>(idx, doc_arr, pattern, m, i, st, out). m - i)") auto

declare pml_for_doc.simps [simp del]

definition pml_query_doc ::
  "'a pml_pointers_scheme \<Rightarrow> DocumentArray \<Rightarrow> uchar list \<Rightarrow> (nat list \<times> ulint list) option"
where
  "pml_query_doc idx doc_arr pattern = do {
     curr_doc_id \<leftarrow> at (end_runs_doc doc_arr) (u64_dec (number_of_runs (bwt idx)));
     pml_for_doc idx doc_arr pattern (length pattern) 0
       (u64_dec (bwt_size idx), 0, curr_doc_id)
       (replicate (length pattern) 0, replicate (length pattern) 0)
   }"

section \<open>The MS query\<close>

text \<open>
  \<open>ms_pointers::_query\<close> (without document numbers) on the state \<open>(pos, sample)\<close>;
  \<open>sample\<close> is a 64-bit unsigned value, so \<open>sample--\<close> wraps at 0.
\<close>

definition ms_update :: "'a ms_pointers_scheme \<Rightarrow> uchar \<Rightarrow> ulint \<times> ulint \<Rightarrow> (ulint \<times> ulint) option" where
  "ms_update idx c st =
     (case st of (pos, sample) \<Rightarrow>
       if number_of_letter (bwt idx) c = 0 then Some (pos, 0)
       else if pos < size_bwt (bwt idx) \<and> same_char (bwt idx ! pos) c then Some (pos, u64_dec sample)
       else do {
         let rnk = rank (bwt idx) pos c;
         (thr, sample1, next1) \<leftarrow>
           (if rnk < number_of_letter (bwt idx) c then do {
              j \<leftarrow> select (bwt idx) rnk c;
              run_of_j \<leftarrow> run_of_position (bwt idx) j;
              t \<leftarrow> at (thresholds idx) run_of_j;
              s \<leftarrow> at (samples_start idx) run_of_j;
              Some (t, s, j)
            } else Some (u64 (size_bwt (bwt idx) + 1), sample, pos));
         (sample2, next2) \<leftarrow>
           (if pos < thr then do {
              j \<leftarrow> select (bwt idx) (u64_dec rnk) c;
              run_of_j \<leftarrow> run_of_position (bwt idx) j;
              s \<leftarrow> at (samples_last idx) run_of_j;
              Some (s, j)
            } else Some (sample1, next1));
         Some (next2, sample2)
       })"

function ms_for ::
  "'a ms_pointers_scheme \<Rightarrow> uchar list \<Rightarrow> nat \<Rightarrow> nat \<Rightarrow> ulint \<times> ulint \<Rightarrow> ulint list \<Rightarrow> ulint list option"
where
  "ms_for idx pattern m i st ms_pointers =
     (if i < m then do {
        let c = pattern ! (m - i - 1);
        (pos, sample) \<leftarrow> ms_update idx c st;
        let ms_pointers = ms_pointers[m - i - 1 := sample];
        pos \<leftarrow> LF idx pos c;
        ms_for idx pattern m (Suc i) (pos, sample) ms_pointers
      } else Some ms_pointers)"
  by pat_completeness auto
termination
  by (relation "measure (\<lambda>(idx, pattern, m, i, st, ms_pointers). m - i)") auto

declare ms_for.simps [simp del]

definition ms_query :: "'a ms_pointers_scheme \<Rightarrow> uchar list \<Rightarrow> ulint list option" where
  "ms_query idx pattern = do {
     sample \<leftarrow> get_last_run_sample idx;
     ms_for idx pattern (length pattern) 0 (u64_dec (bwt_size idx), sample)
       (replicate (length pattern) 0)
   }"

text \<open>\<open>ms_pointers::_query\<close> with document numbers, on \<open>(pos, sample, curr_doc_id)\<close>.\<close>

definition ms_update_doc ::
  "'a ms_pointers_scheme \<Rightarrow> DocumentArray \<Rightarrow> uchar \<Rightarrow> ulint \<times> ulint \<times> ulint \<Rightarrow> (ulint \<times> ulint \<times> ulint) option"
where
  "ms_update_doc idx doc_arr c st =
     (case st of (pos, sample, curr_doc_id) \<Rightarrow>
       if number_of_letter (bwt idx) c = 0 then do {
         let sample = 0;
         run_of_j \<leftarrow> run_of_position (bwt idx) sample;
         d \<leftarrow> at (start_runs_doc doc_arr) run_of_j;
         Some (pos, sample, d)
       }
       else if pos < size_bwt (bwt idx) \<and> same_char (bwt idx ! pos) c then
         Some (pos, u64_dec sample, curr_doc_id)
       else do {
         let rnk = rank (bwt idx) pos c;
         (thr, sample1, curr1, next1) \<leftarrow>
           (if rnk < number_of_letter (bwt idx) c then do {
              j \<leftarrow> select (bwt idx) rnk c;
              run_of_j \<leftarrow> run_of_position (bwt idx) j;
              t \<leftarrow> at (thresholds idx) run_of_j;
              s \<leftarrow> at (samples_start idx) run_of_j;
              d \<leftarrow> at (start_runs_doc doc_arr) run_of_j;
              Some (t, s, d, j)
            } else Some (u64 (size_bwt (bwt idx) + 1), sample, curr_doc_id, pos));
         (sample2, curr2, next2) \<leftarrow>
           (if pos < thr then do {
              j \<leftarrow> select (bwt idx) (u64_dec rnk) c;
              run_of_j \<leftarrow> run_of_position (bwt idx) j;
              s \<leftarrow> at (samples_last idx) run_of_j;
              d \<leftarrow> at (end_runs_doc doc_arr) run_of_j;
              Some (s, d, j)
            } else Some (sample1, curr1, next1));
         Some (next2, sample2, curr2)
       })"

function ms_for_doc ::
  "'a ms_pointers_scheme \<Rightarrow> DocumentArray \<Rightarrow> uchar list \<Rightarrow> nat \<Rightarrow> nat \<Rightarrow>
   ulint \<times> ulint \<times> ulint \<Rightarrow> ulint list \<times> ulint list \<Rightarrow> (ulint list \<times> ulint list) option"
where
  "ms_for_doc idx doc_arr pattern m i st out =
     (if i < m then do {
        let c = pattern ! (m - i - 1);
        (pos, sample, curr_doc_id) \<leftarrow> ms_update_doc idx doc_arr c st;
        let out = (case out of (ms_pointers, doc_nums) \<Rightarrow>
                     (ms_pointers[m - i - 1 := sample], doc_nums[m - i - 1 := curr_doc_id]));
        pos \<leftarrow> LF idx pos c;
        ms_for_doc idx doc_arr pattern m (Suc i) (pos, sample, curr_doc_id) out
      } else Some out)"
  by pat_completeness auto
termination
  by (relation "measure (\<lambda>(idx, doc_arr, pattern, m, i, st, out). m - i)") auto

declare ms_for_doc.simps [simp del]

definition ms_query_doc ::
  "'a ms_pointers_scheme \<Rightarrow> DocumentArray \<Rightarrow> uchar list \<Rightarrow> (ulint list \<times> ulint list) option"
where
  "ms_query_doc idx doc_arr pattern = do {
     sample \<leftarrow> get_last_run_sample idx;
     curr_doc_id \<leftarrow> at (end_runs_doc doc_arr) (u64_dec (number_of_runs (bwt idx)));
     ms_for_doc idx doc_arr pattern (length pattern) 0
       (u64_dec (bwt_size idx), sample, curr_doc_id)
       (replicate (length pattern) 0, replicate (length pattern) 0)
   }"

text \<open>
  The loops as recursions over the characters in reading order.  \<open>run step cs st\<close> applies
  \<open>step\<close>, which returns the next state and the value to emit, to every character and
  lists the emitted values; \<open>run2\<close> does so for a step that emits two values.
\<close>

fun run :: "(uchar \<Rightarrow> 's \<Rightarrow> ('s \<times> 'v) option) \<Rightarrow> uchar list \<Rightarrow> 's \<Rightarrow> 'v list option" where
  "run step [] st = Some []"
| "run step (c # cs) st = do {
     (st', v) \<leftarrow> step c st;
     out \<leftarrow> run step cs st';
     Some (v # out)
   }"

definition ms_body :: "'a ms_pointers_scheme \<Rightarrow> uchar \<Rightarrow> ulint \<times> ulint \<Rightarrow> ((ulint \<times> ulint) \<times> ulint) option" where
  "ms_body idx c st = do {
     (pos, sample) \<leftarrow> ms_update idx c st;
     pos \<leftarrow> LF idx pos c;
     Some ((pos, sample), sample)
   }"

definition pml_body_doc ::
  "'a pml_pointers_scheme \<Rightarrow> DocumentArray \<Rightarrow> uchar \<Rightarrow> ulint \<times> nat \<times> ulint \<Rightarrow>
   ((ulint \<times> nat \<times> ulint) \<times> (nat \<times> ulint)) option"
where
  "pml_body_doc idx doc_arr c st = do {
     (pos, len, curr_doc_id) \<leftarrow> pml_update_doc idx doc_arr c st;
     pos \<leftarrow> LF idx pos c;
     Some ((pos, len, curr_doc_id), (len, curr_doc_id))
   }"

definition ms_body_doc ::
  "'a ms_pointers_scheme \<Rightarrow> DocumentArray \<Rightarrow> uchar \<Rightarrow> ulint \<times> ulint \<times> ulint \<Rightarrow>
   ((ulint \<times> ulint \<times> ulint) \<times> (ulint \<times> ulint)) option"
where
  "ms_body_doc idx doc_arr c st = do {
     (pos, sample, curr_doc_id) \<leftarrow> ms_update_doc idx doc_arr c st;
     pos \<leftarrow> LF idx pos c;
     Some ((pos, sample, curr_doc_id), (sample, curr_doc_id))
   }"

section \<open>The MS lengths\<close>

text \<open>
  \<open>ms_t::matching_statistics\<close> (without document numbers): the query fills \<open>pointers\<close>,
  then one forward sweep compares the read with the reference text.  The random-access
  text \<open>ra\<close> (a \<open>SelfShapedSlp\<close>, not part of the sources) is used through \<open>charAt\<close> and
  \<open>getLen\<close> only and is modelled as the sequence of its characters; the member \<open>n\<close> is
  \<open>ra.getLen()\<close>.  The sums \<open>pos + l\<close> and \<open>pointers[i-1] + 1\<close> are 64-bit sums;
  \<open>i + l\<close> never exceeds \<open>read_length\<close>.
\<close>

function ms_while ::
  "uchar list \<Rightarrow> nat \<Rightarrow> uchar list \<Rightarrow> ulint list \<Rightarrow> nat \<Rightarrow> ulint \<Rightarrow> nat \<Rightarrow> nat"
where
  "ms_while read read_length ra pointers i pos l =
     (if i + l < read_length \<and> u64 (pos + l) < length ra \<and>
         (i < 1 \<or> pos \<noteq> u64 (pointers ! (i - 1) + 1)) \<and>
         read ! (i + l) = ra ! u64 (pos + l)
      then ms_while read read_length ra pointers i pos (l + 1)
      else l)"
  by pat_completeness auto
termination
  by (relation "measure (\<lambda>(read, read_length, ra, pointers, i, pos, l). read_length - (i + l))") auto

declare ms_while.simps [simp del]

function ms_sweep ::
  "uchar list \<Rightarrow> nat \<Rightarrow> uchar list \<Rightarrow> ulint list \<Rightarrow> nat \<Rightarrow> nat \<Rightarrow> nat list \<Rightarrow> nat list"
where
  "ms_sweep read read_length ra pointers i l lengths =
     (if i < length pointers then
        let pos = pointers ! i;
            l = ms_while read read_length ra pointers i pos l;
            lengths = lengths[i := l];
            l = (if l = 0 then 0 else l - 1)
        in ms_sweep read read_length ra pointers (Suc i) l lengths
      else lengths)"
  by pat_completeness auto
termination
  by (relation "measure (\<lambda>(read, read_length, ra, pointers, i, l, lengths). length pointers - i)") auto

declare ms_sweep.simps [simp del]

definition matching_statistics ::
  "'a ms_pointers_scheme \<Rightarrow> uchar list \<Rightarrow> uchar list \<Rightarrow> (nat list \<times> ulint list) option"
where
  "matching_statistics idx ra read = do {
     pointers \<leftarrow> ms_query idx read;
     let lengths = replicate (length read) 0;
     Some (ms_sweep read (length read) ra pointers 0 0 lengths, pointers)
   }"

section \<open>Loaded indexes\<close>

text \<open>
  The invariants of section 3 of the specification that the queries rely on: the BWT is
  not empty and its length fits the machine word, \<open>F\<close> has 256 entries and \<open>F[c]\<close> is the
  number of BWT characters smaller than \<open>c\<close>, there is one threshold per run, and the
  threshold of the first run of every character is 0.
\<close>

definition C_array :: "rle_string \<Rightarrow> uchar \<Rightarrow> nat" where
  "C_array b c = length (filter (\<lambda>x. x < c) b)"

definition F_ok :: "'a r_index_scheme \<Rightarrow> bool" where
  "F_ok idx \<longleftrightarrow> F idx = map (\<lambda>k. C_array (bwt idx) (char_of k)) [0..<256]"

definition first_thresholds_zero :: "'a pml_pointers_scheme \<Rightarrow> bool" where
  "first_thresholds_zero idx \<longleftrightarrow>
     (\<forall>c \<in> set (bwt idx).
        case select (bwt idx) 0 c of
          None \<Rightarrow> True
        | Some j \<Rightarrow>
            (case run_of_position (bwt idx) j of
               None \<Rightarrow> True
             | Some k \<Rightarrow> at (thresholds idx) k = Some 0))"

definition pml_index_ok :: "'a pml_pointers_scheme \<Rightarrow> bool" where
  "pml_index_ok idx \<longleftrightarrow>
     bwt idx \<noteq> [] \<and> length (bwt idx) < 18446744073709551615 \<and>
     F_ok idx \<and>
     length (thresholds idx) = number_of_runs (bwt idx) \<and>
     first_thresholds_zero idx"

definition ms_index_ok :: "'a ms_pointers_scheme \<Rightarrow> bool" where
  "ms_index_ok idx \<longleftrightarrow>
     pml_index_ok idx \<and> r idx = number_of_runs (bwt idx) \<and>
     length (samples_start idx) = number_of_runs (bwt idx) \<and>
     length (samples_last idx) = number_of_runs (bwt idx) \<and>
     (\<forall>s \<in> set (samples_start idx). s < length (bwt idx)) \<and>
     (\<forall>s \<in> set (samples_last idx). s < length (bwt idx))"

text \<open>A loaded document array has one entry per run in each of its two vectors.\<close>

definition doc_array_ok :: "'a r_index_scheme \<Rightarrow> DocumentArray \<Rightarrow> bool" where
  "doc_array_ok idx doc_arr \<longleftrightarrow>
     length (start_runs_doc doc_arr) = number_of_runs (bwt idx) \<and>
     length (end_runs_doc doc_arr) = number_of_runs (bwt idx)"

section \<open>The PML transition of section 4.4\<close>

text \<open>
  The transition as the specification words it, on the state \<open>(pos, length)\<close>: the
  result is the position after the snap and the emitted length; \<open>spec_LF\<close> is the
  advance that follows.  \<open>spec_pml_state idx P i\<close> is the state after \<open>i\<close> steps, the
  \<open>i\<close>-th step reading \<open>P[m-1-i]\<close>.
\<close>

definition spec_access :: "rle_string \<Rightarrow> nat \<Rightarrow> uchar option" where
  "spec_access b i = (if i < length b then Some (b ! i) else None)"

definition spec_select :: "rle_string \<Rightarrow> nat \<Rightarrow> uchar \<Rightarrow> nat" where
  "spec_select b k c = occurrences b c ! k"

definition spec_run_of_position :: "rle_string \<Rightarrow> nat \<Rightarrow> nat" where
  "spec_run_of_position b i = length (filter (\<lambda>j. j \<le> i) (run_heads b))"

definition spec_LF :: "'a r_index_scheme \<Rightarrow> nat \<Rightarrow> uchar \<Rightarrow> nat" where
  "spec_LF idx i c = F idx ! of_char c + rank (bwt idx) i c"

definition spec_pml_transition :: "'a pml_pointers_scheme \<Rightarrow> uchar \<Rightarrow> nat \<times> nat \<Rightarrow> nat \<times> nat" where
  "spec_pml_transition idx c st =
     (case st of (pos, len) \<Rightarrow>
       let b = bwt idx; n = length b in
       if number_of_letter b c = 0 then (pos, 0)
       else if spec_access b pos = Some c then (pos, len + 1)
       else
         let rnk = rank b pos c;
             below = (rnk < number_of_letter b c);
             j = spec_select b rnk c;
             thr = (if below then thresholds idx ! spec_run_of_position b j else n + 1)
         in if pos < thr then (spec_select b (rnk - 1) c, 0)
            else if below then (j, 0)
            else (pos, len))"

primrec spec_pml_state :: "'a pml_pointers_scheme \<Rightarrow> uchar list \<Rightarrow> nat \<Rightarrow> nat \<times> nat" where
  "spec_pml_state idx P 0 = (length (bwt idx) - 1, 0)"
| "spec_pml_state idx P (Suc i) =
     (let c = P ! (length P - 1 - i);
          (pos, len) = spec_pml_transition idx c (spec_pml_state idx P i)
      in (spec_LF idx pos c, len))"

definition spec_pml_step :: "'a pml_pointers_scheme \<Rightarrow> uchar \<Rightarrow> nat \<times> nat \<Rightarrow> nat \<times> nat" where
  "spec_pml_step idx c st =
     (case spec_pml_transition idx c st of (pos, len) \<Rightarrow> (spec_LF idx pos c, len))"

fun spec_pml_after :: "'a pml_pointers_scheme \<Rightarrow> uchar list \<Rightarrow> nat \<times> nat \<Rightarrow> nat \<times> nat" where
  "spec_pml_after idx [] st = st"
| "spec_pml_after idx (c # cs) st = spec_pml_after idx cs (spec_pml_step idx c st)"

section \<open>The loop bodies on a loaded index\<close>

text \<open>
  On an index that satisfies the invariants no access of the loop bodies leaves its range.
  \<open>pml_next\<close> and \<open>ms_next\<close> are the bodies of the two loops of the source without the
  option, with \<open>spec_select\<close> and \<open>spec_run_of_position\<close> for the accesses that are then
  defined; \<open>pml_next_step\<close> and \<open>ms_next_step\<close> add the advance by \<open>LF\<close>.
\<close>

definition pml_next :: "'a pml_pointers_scheme \<Rightarrow> uchar \<Rightarrow> nat \<times> nat \<Rightarrow> nat \<times> nat" where
  "pml_next idx c st =
     (case st of (pos, len) \<Rightarrow>
       let b = bwt idx; n = length b in
       if number_of_letter b c = 0 then (pos, 0)
       else if pos < n \<and> same_char (b ! pos) c then (pos, len + 1)
       else
         let rnk = rank b pos c;
             below = (rnk < number_of_letter b c);
             j = spec_select b rnk c;
             thr = (if below then thresholds idx ! spec_run_of_position b j else n + 1)
         in if pos < thr then (spec_select b (rnk - 1) c, 0)
            else if below then (j, 0)
            else (pos, len))"

definition pml_next_step :: "'a pml_pointers_scheme \<Rightarrow> uchar \<Rightarrow> nat \<times> nat \<Rightarrow> nat \<times> nat" where
  "pml_next_step idx c st =
     (case pml_next idx c st of (pos, len) \<Rightarrow> (spec_LF idx pos c, len))"

fun pml_after :: "'a pml_pointers_scheme \<Rightarrow> uchar list \<Rightarrow> nat \<times> nat \<Rightarrow> nat \<times> nat" where
  "pml_after idx [] st = st"
| "pml_after idx (c # cs) st = pml_after idx cs (pml_next_step idx c st)"

definition ms_next :: "'a ms_pointers_scheme \<Rightarrow> uchar \<Rightarrow> nat \<times> nat \<Rightarrow> nat \<times> nat" where
  "ms_next idx c st =
     (case st of (pos, sample) \<Rightarrow>
       let b = bwt idx; n = length b in
       if number_of_letter b c = 0 then (pos, 0)
       else if pos < n \<and> same_char (b ! pos) c then (pos, u64_dec sample)
       else
         let rnk = rank b pos c;
             below = (rnk < number_of_letter b c);
             j = spec_select b rnk c;
             r_j = spec_run_of_position b j;
             thr = (if below then thresholds idx ! r_j else n + 1)
         in if pos < thr then
              (let j' = spec_select b (rnk - 1) c
               in (j', samples_last idx ! spec_run_of_position b j'))
            else if below then (j, samples_start idx ! r_j)
            else (pos, sample))"

definition ms_next_step :: "'a ms_pointers_scheme \<Rightarrow> uchar \<Rightarrow> nat \<times> nat \<Rightarrow> nat \<times> nat" where
  "ms_next_step idx c st =
     (case ms_next idx c st of (pos, sample) \<Rightarrow> (spec_LF idx pos c, sample))"

section \<open>The MS transition of section 4.5\<close>

text \<open>
  The transition as the specification words it, on the state \<open>(pos, sample)\<close>.  The
  specification takes \<open>sample\<close> from \<open>[0, n)\<close> and writes \<open>sample - 1\<close> for the extended
  match; the sample is an integer here, so that the step is defined at \<open>sample = 0\<close> and
  leaves the range there.
\<close>

definition spec_ms_transition :: "'a ms_pointers_scheme \<Rightarrow> uchar \<Rightarrow> nat \<times> int \<Rightarrow> nat \<times> int" where
  "spec_ms_transition idx c st =
     (case st of (pos, sample) \<Rightarrow>
       let b = bwt idx; n = length b in
       if number_of_letter b c = 0 then (pos, 0)
       else if spec_access b pos = Some c then (pos, sample - 1)
       else
         let rnk = rank b pos c;
             below = (rnk < number_of_letter b c);
             j = spec_select b rnk c;
             r_j = spec_run_of_position b j;
             thr = (if below then thresholds idx ! r_j else n + 1)
         in if pos < thr then
              (let j' = spec_select b (rnk - 1) c
               in (j', int (samples_last idx ! spec_run_of_position b j')))
            else if below then (j, int (samples_start idx ! r_j))
            else (pos, sample))"

primrec spec_ms_state :: "'a ms_pointers_scheme \<Rightarrow> uchar list \<Rightarrow> nat \<Rightarrow> nat \<times> int" where
  "spec_ms_state idx P 0 = (length (bwt idx) - 1, int (samples_last idx ! (r idx - 1)))"
| "spec_ms_state idx P (Suc i) =
     (let c = P ! (length P - 1 - i);
          (pos, sample) = spec_ms_transition idx c (spec_ms_state idx P i)
      in (spec_LF idx pos c, sample))"

section \<open>The length reconstruction of section 4.5\<close>

text \<open>
  The pseudocode of the specification, on unbounded numbers: \<open>spec_extend\<close> is the
  \<open>while\<close> loop, \<open>spec_scan\<close> the \<open>for\<close> loop from position \<open>i\<close> on with the carried \<open>l\<close>.
\<close>

function spec_extend ::
  "uchar list \<Rightarrow> nat \<Rightarrow> (nat \<Rightarrow> uchar) \<Rightarrow> nat \<Rightarrow> nat list \<Rightarrow> nat \<Rightarrow> nat \<Rightarrow> nat \<Rightarrow> nat"
where
  "spec_extend P m char_at n pointers i p l =
     (if i + l < m \<and> p + l < n \<and> (i = 0 \<or> p \<noteq> pointers ! (i - 1) + 1) \<and>
         P ! (i + l) = char_at (p + l)
      then spec_extend P m char_at n pointers i p (l + 1)
      else l)"
  by pat_completeness auto
termination
  by (relation "measure (\<lambda>(P, m, char_at, n, pointers, i, p, l). m - (i + l))") auto

declare spec_extend.simps [simp del]

function spec_scan ::
  "uchar list \<Rightarrow> nat \<Rightarrow> (nat \<Rightarrow> uchar) \<Rightarrow> nat \<Rightarrow> nat list \<Rightarrow> nat \<Rightarrow> nat \<Rightarrow> nat list"
where
  "spec_scan P m char_at n pointers i l =
     (if i < m then
        let p = pointers ! i;
            l = spec_extend P m char_at n pointers i p l
        in l # spec_scan P m char_at n pointers (Suc i) (nat (max (int l - 1) 0))
      else [])"
  by pat_completeness auto
termination
  by (relation "measure (\<lambda>(P, m, char_at, n, pointers, i, l). m - i)") auto

declare spec_scan.simps [simp del]

definition spec_lengths :: "uchar list \<Rightarrow> (nat \<Rightarrow> uchar) \<Rightarrow> nat \<Rightarrow> nat list \<Rightarrow> nat list" where
  "spec_lengths P char_at n pointers = spec_scan P (length P) char_at n pointers 0 0"

section \<open>The reference text and its BWT\<close>

text \<open>
  The reference \<open>T\<close> ends with the terminator byte, which is smaller than every other byte
  of \<open>T\<close>.  Its BWT is the last column of the sorted cyclic rotations (the glossary of the
  specification); the sources read it from a file.  \<open>occurs w T\<close> says that \<open>w\<close> is a
  substring of \<open>T\<close>, and \<open>longest_match T P i\<close> is the length of the longest substring of \<open>P\<close>
  starting at \<open>i\<close> that occurs in \<open>T\<close>.
\<close>

definition rotations :: "'a list \<Rightarrow> 'a list list" where
  "rotations T = map (\<lambda>k. rotate k T) [0..<length T]"

definition bwt_rows :: "uchar list \<Rightarrow> uchar list list" where
  "bwt_rows T = sort (rotations T)"

definition BWT :: "uchar list \<Rightarrow> rle_string" where
  "BWT T = map last (bwt_rows T)"

definition valid_text :: "uchar \<Rightarrow> uchar list \<Rightarrow> bool" where
  "valid_text t T \<longleftrightarrow> T \<noteq> [] \<and> last T = t \<and> (\<forall>c \<in> set (butlast T). t < c)"

definition occurs :: "uchar list \<Rightarrow> uchar list \<Rightarrow> bool" where
  "occurs w T \<longleftrightarrow> list_ex (\<lambda>k. take (length w) (drop k T) = w) [0..<Suc (length T)]"

definition longest_match :: "uchar list \<Rightarrow> uchar list \<Rightarrow> nat \<Rightarrow> nat" where
  "longest_match T P i =
     Max (set (filter (\<lambda>l. occurs (take l (drop i P)) T) [0..<Suc (length P - i)]))"

text \<open>
  A row of the sorted rotations moved one step to the right, and the property of the state
  \<open>(pos, length)\<close> that the PML loop keeps: the row at \<open>pos\<close> starts with the last
  \<open>length\<close> characters read, \<open>w\<close> being the part of the pattern read so far.
\<close>

definition rotate_right :: "'a list \<Rightarrow> 'a list" where
  "rotate_right ro = last ro # butlast ro"

definition pml_inv :: "uchar list \<Rightarrow> uchar list \<Rightarrow> nat \<times> nat \<Rightarrow> bool" where
  "pml_inv T w st \<longleftrightarrow>
     (case st of (pos, len) \<Rightarrow>
        pos \<le> length T \<and> len \<le> length w \<and>
        (0 < len \<longrightarrow> pos < length T \<and> take len (bwt_rows T ! pos) = take len w))"

section \<open>Building the F table from run heads and run lengths\<close>

text \<open>
  \<open>build_F_\<close> of \<open>pml_pointers\<close> and \<open>ms_pointers\<close> (the two copies are the same; a name
  cannot end in an underscore here, so the model is called \<open>build_F_runs\<close>).  The stream
  \<open>heads\<close> holds one byte per run, the stream \<open>lengths\<close> one 5-byte little-endian number
  per run, read into a \<open>size_t\<close> that starts as 0; they are the list of heads and the list
  of the numbers read.  The macro \<open>TERMINATOR\<close> is defined in a header that is not part of
  the sources and is a parameter.  \<open>rle_decode\<close> is the sequence of bytes that the two
  streams stand for, which the constructor passes to \<open>rle_string_t\<close>.  \<open>count_runs\<close> is the
  \<open>while\<close> loop with its counter \<open>i\<close>, \<open>shift_F\<close> and \<open>sum_F\<close> are the two \<open>for\<close> loops; the
  result is \<open>F\<close> with \<open>terminator_position\<close>.
\<close>

fun rle_decode :: "uchar list \<Rightarrow> nat list \<Rightarrow> rle_string" where
  "rle_decode [] lens = []"
| "rle_decode (c # heads) [] = []"
| "rle_decode (c # heads) (l # lens) = replicate l c @ rle_decode heads lens"

fun count_runs ::
  "uchar \<Rightarrow> uchar list \<Rightarrow> nat list \<Rightarrow> ulint \<Rightarrow> ulint list \<times> ulint \<Rightarrow> ulint list \<times> ulint" where
  "count_runs TERMINATOR [] lens i (Fv, tp) = (Fv, tp)"
| "count_runs TERMINATOR (c # heads) lens i (Fv, tp) =
     (let len = (case lens of [] \<Rightarrow> 0 | l # _ \<Rightarrow> l) in
      if c > TERMINATOR
      then count_runs TERMINATOR heads (tl lens) (u64 (i + 1))
             (Fv[of_char c := u64 (Fv ! of_char c + len)], tp)
      else count_runs TERMINATOR heads (tl lens) (u64 (i + 1))
             (Fv[of_char TERMINATOR := u64 (Fv ! of_char TERMINATOR + len)], i))"

fun shift_F :: "nat \<Rightarrow> ulint list \<Rightarrow> ulint list" where
  "shift_F 0 Fv = Fv"
| "shift_F (Suc i) Fv = shift_F i (Fv[Suc i := Fv ! i])"

function sum_F :: "nat \<Rightarrow> ulint list \<Rightarrow> ulint list" where
  "sum_F i Fv = (if i < 256 then sum_F (Suc i) (Fv[i := u64 (Fv ! i + Fv ! (i - 1))]) else Fv)"
  by pat_completeness auto
termination
  by (relation "measure (\<lambda>(i, Fv). 256 - i)") auto

declare sum_F.simps [simp del]

definition build_F_runs :: "uchar \<Rightarrow> uchar list \<Rightarrow> nat list \<Rightarrow> ulint \<Rightarrow> ulint list \<times> ulint" where
  "build_F_runs TERMINATOR heads lengths tp0 =
     (case count_runs TERMINATOR heads lengths 0 (replicate 256 0, tp0) of
        (Fv, tp) \<Rightarrow> (sum_F 1 ((shift_F 255 Fv)[0 := 0]), tp))"

text \<open>The value that \<open>count_runs\<close> leaves in \<open>terminator_position\<close>, as a function of the heads.\<close>

fun last_terminator_run :: "uchar \<Rightarrow> uchar list \<Rightarrow> ulint \<Rightarrow> ulint \<Rightarrow> ulint" where
  "last_terminator_run TERMINATOR [] i tp = tp"
| "last_terminator_run TERMINATOR (c # heads) i tp =
     last_terminator_run TERMINATOR heads (u64 (i + 1)) (if c > TERMINATOR then tp else i)"

section \<open>Loading the suffix-array samples\<close>

text \<open>
  \<open>read_samples\<close> (the copies in \<open>pml_pointers\<close> and \<open>ms_pointers\<close> are the same).  The
  file named by \<open>filename\<close> either cannot be opened, or cannot be stat'ed, or has contents,
  whose length is the \<open>st_size\<close> that \<open>fstat\<close> reports.  \<open>error\<close> ends the program, and so
  does a failing \<open>assert\<close>; both are results of the model.

  Modelled from the spec: the constant \<open>SSABYTES\<close> and the function \<open>bitsize\<close> are
  declared in headers that are not part of the sources.  Section 6 gives the samples as
  5-byte little-endian values; section 9 gives the width of a packed vector as the number
  of bits of \<open>n\<close>, which \<open>bitsize\<close> is taken to be (1 for 0).
\<close>

datatype sample_file = Cannot_open | Cannot_stat | Contents "uchar list"

datatype load_error = Open_failed | Stat_failed | Invalid_file | Assertion_failed | Out_of_range

definition SSABYTES :: nat where
  "SSABYTES = 5"

fun bit_count :: "nat \<Rightarrow> nat" where
  "bit_count x = (if x = 0 then 0 else Suc (bit_count (x div 2)))"

declare bit_count.simps [simp del]

definition bitsize :: "ulint \<Rightarrow> nat" where
  "bitsize x = (if x = 0 then 1 else bit_count x)"

fun le_value :: "uchar list \<Rightarrow> nat" where
  \<comment> \<open>the number that \<open>fread\<close> leaves in a zeroed \<open>uint64_t\<close> on a little-endian machine\<close>
  "le_value [] = 0"
| "le_value (b # bs) = of_char b + 256 * le_value bs"

function read_pairs ::
  "uchar list \<Rightarrow> ulint \<Rightarrow> nat \<Rightarrow> nat \<Rightarrow> ulint list \<Rightarrow> load_error + ulint list"
where
  "read_pairs bytes n log_n i samples =
     (if SSABYTES \<le> length bytes \<and> SSABYTES \<le> length (drop SSABYTES bytes) then
        let left = le_value (take SSABYTES bytes);
            right = le_value (take SSABYTES (drop SSABYTES bytes));
            val = (if right \<noteq> 0 then right - 1 else u64_dec n)
        in if \<not> bitsize val \<le> log_n then Inl Assertion_failed
           else if \<not> i < length samples then Inl Out_of_range
           else read_pairs (drop (2 * SSABYTES) bytes) n log_n (Suc i) (samples[i := val])
      else Inr samples)"
  by pat_completeness auto
termination
  by (relation "measure (\<lambda>(bytes, n, log_n, i, samples). length bytes)")
     (auto simp: SSABYTES_def)

declare read_pairs.simps [simp del]

definition read_samples :: "sample_file \<Rightarrow> ulint \<Rightarrow> ulint \<Rightarrow> load_error + ulint list" where
  "read_samples sf r' n =
     (let log_n = bitsize n in
      case sf of
        Cannot_open \<Rightarrow> Inl Open_failed
      | Cannot_stat \<Rightarrow> Inl Stat_failed
      | Contents bytes \<Rightarrow>
          let st_size = length bytes in
          if st_size mod SSABYTES \<noteq> 0 then Inl Invalid_file
          else
            let len = st_size div (2 * SSABYTES) in
            if len \<noteq> r' then Inl Assertion_failed
            else read_pairs bytes n log_n 0 (replicate r' 0))"

text \<open>
  The value stored for the \<open>k\<close>-th pair of the file: \<open>right - 1\<close> for the pair's second
  component, or \<open>n - 1\<close> when it is 0.
\<close>

definition sample_value :: "uchar list \<Rightarrow> ulint \<Rightarrow> nat \<Rightarrow> ulint" where
  "sample_value bytes n k =
     (let right = le_value (take 5 (drop (10 * k + 5) bytes))
      in if right = 0 then u64_dec n else right - 1)"

section \<open>Serialization of the MS index\<close>

text \<open>
  \<open>ms_pointers::serialize\<close> and \<open>ms_pointers::load\<close>.  A stream is the sequence of its bytes.
  \<open>terminator_position\<close> is written and read as the 8 bytes of the machine word.  The
  serializers of the members (\<open>my_serialize\<close> and \<open>my_load\<close> for \<open>F\<close>, those of the RLBWT,
  of \<open>int_vector\<close> and of the thresholds, which take the BWT they belong to) are not part
  of the sources; they are the fields of \<open>codecs\<close>.  A reader returns the value with the
  rest of the stream, or \<open>None\<close> when the stream does not hold one.  \<open>load\<close> assigns the
  members of the object it is called on and leaves \<open>num_runs\<close> as it was.
\<close>

record codecs =
  put_F :: "ulint list \<Rightarrow> uchar list"
  get_F :: "uchar list \<Rightarrow> (ulint list \<times> uchar list) option"
  put_bwt :: "rle_string \<Rightarrow> uchar list"
  get_bwt :: "uchar list \<Rightarrow> (rle_string \<times> uchar list) option"
  put_int_vector :: "ulint list \<Rightarrow> uchar list"
  get_int_vector :: "uchar list \<Rightarrow> (ulint list \<times> uchar list) option"
  put_thresholds :: "rle_string \<Rightarrow> ulint list \<Rightarrow> uchar list"
  get_thresholds :: "rle_string \<Rightarrow> uchar list \<Rightarrow> (ulint list \<times> uchar list) option"

fun le_bytes :: "nat \<Rightarrow> nat \<Rightarrow> uchar list" where
  "le_bytes 0 x = []"
| "le_bytes (Suc k) x = char_of (x mod 256) # le_bytes k (x div 256)"

definition write_word :: "ulint \<Rightarrow> uchar list" where
  "write_word x = le_bytes 8 x"

definition read_word :: "uchar list \<Rightarrow> (ulint \<times> uchar list) option" where
  "read_word s = (if 8 \<le> length s then Some (le_value (take 8 s), drop 8 s) else None)"

definition serialize :: "codecs \<Rightarrow> 'a ms_pointers_scheme \<Rightarrow> uchar list" where
  "serialize c idx =
     write_word (terminator_position idx) @
     put_F c (F idx) @
     put_bwt c (bwt idx) @
     put_int_vector c (samples_last idx) @
     put_thresholds c (bwt idx) (thresholds idx) @
     put_int_vector c (samples_start idx)"

definition load :: "codecs \<Rightarrow> 'a ms_pointers_scheme \<Rightarrow> uchar list \<Rightarrow> ('a ms_pointers_scheme \<times> uchar list) option" where
  "load c idx s = do {
     (tp, s) \<leftarrow> read_word s;
     (Fv, s) \<leftarrow> get_F c s;
     (b, s) \<leftarrow> get_bwt c s;
     let runs = number_of_runs b;
     (sl, s) \<leftarrow> get_int_vector c s;
     (thr, s) \<leftarrow> get_thresholds c b s;
     (ss, s) \<leftarrow> get_int_vector c s;
     Some (idx\<lparr> terminator_position := tp, F := Fv, bwt := b, r := runs, samples_last := sl,
                thresholds := thr, samples_start := ss \<rparr>, s)
   }"

text \<open>
  The members' own serializers are taken to invert each other on the members of the index
  that is written, whatever follows in the stream.
\<close>

definition members_round_trip :: "codecs \<Rightarrow> 'a ms_pointers_scheme \<Rightarrow> bool" where
  "members_round_trip c idx \<longleftrightarrow>
     (\<forall>s. get_F c (put_F c (F idx) @ s) = Some (F idx, s)) \<and>
     (\<forall>s. get_bwt c (put_bwt c (bwt idx) @ s) = Some (bwt idx, s)) \<and>
     (\<forall>s. get_int_vector c (put_int_vector c (samples_last idx) @ s) = Some (samples_last idx, s)) \<and>
     (\<forall>s. get_thresholds c (bwt idx) (put_thresholds c (bwt idx) (thresholds idx) @ s)
            = Some (thresholds idx, s)) \<and>
     (\<forall>s. get_int_vector c (put_int_vector c (samples_start idx) @ s) = Some (samples_start idx, s))"

definition banana_heads :: "uchar list" where
  "banana_heads = [CHR ''A'', CHR ''N'', CHR ''B'', CHR 0x01, CHR ''A'']"

definition banana_lens :: "nat list" where
  "banana_lens = [1, 2, 1, 1, 2]"

definition banana_F :: "ulint list" where
  "banana_F = replicate 2 0 @ replicate 64 1 @ [4] @ replicate 12 5 @ replicate 177 7"

definition banana_bwt :: rle_string where
  "banana_bwt = [CHR ''A'', CHR ''N'', CHR ''N'', CHR ''B'', CHR 0x01, CHR ''A'', CHR ''A'']"

definition banana :: ms_pointers where
  "banana =
     \<lparr> bwt = banana_bwt, F = banana_F, terminator_position = 4,
       r = 5, samples_last = [5, 2, 0, 6, 1],
       thresholds = [0, 0, 0, 0, 4], num_runs = 5,
       samples_start = [5, 4, 0, 6, 3] \<rparr>"

definition banana_doc :: DocumentArray where
  "banana_doc = \<lparr> start_runs_doc = [2, 2, 1, 2, 1], end_runs_doc = [2, 1, 1, 2, 1] \<rparr>"

definition banana_text :: "uchar list" where
  "banana_text = [CHR ''B'', CHR ''A'', CHR ''N'', CHR ''A'', CHR ''N'', CHR ''A'', CHR 0x01]"

text \<open>Sample files: two pairs with the second components 6 and 0, and one pair with the second component 9.\<close>

definition two_samples :: "uchar list" where
  "two_samples =
     [CHR 0x00, CHR 0x00, CHR 0x00, CHR 0x00, CHR 0x00,  CHR 0x06, CHR 0x00, CHR 0x00, CHR 0x00, CHR 0x00,
      CHR 0x03, CHR 0x00, CHR 0x00, CHR 0x00, CHR 0x00,  CHR 0x00, CHR 0x00, CHR 0x00, CHR 0x00, CHR 0x00]"

definition wide_sample :: "uchar list" where
  "wide_sample =
     [CHR 0x00, CHR 0x00, CHR 0x00, CHR 0x00, CHR 0x00,  CHR 0x09, CHR 0x00, CHR 0x00, CHR 0x00, CHR 0x00]"

text \<open>
  The index of the reference \<open>0xC8 A $\<close>, whose BWT is \<open>A 0xC8 $\<close>: three runs of length
  1, so every threshold is 0; the samples are the text positions of the BWT characters.
\<close>

definition hi_bwt :: rle_string where
  "hi_bwt = [CHR ''A'', CHR 0xC8, CHR 0x01]"

definition hi_text :: "uchar list" where
  "hi_text = [CHR 0xC8, CHR ''A'', CHR 0x01]"

definition hi_index :: ms_pointers where
  "hi_index =
     \<lparr> bwt = hi_bwt, F = map (\<lambda>k. C_array hi_bwt (char_of k)) [0..<256],
       terminator_position = 2, r = 3, samples_last = [1, 0, 2],
       thresholds = [0, 0, 0], num_runs = 3, samples_start = [1, 0, 2] \<rparr>"

text \<open>
  The index of the reference \<open>0xC8 A 0xC8 B $\<close>.  Its suffixes in order start at the text
  positions 4, 1, 3, 0, 2, so the BWT is \<open>B 0xC8 0xC8 $ A\<close>, with the four runs \<open>B\<close>,
  \<open>0xC8 0xC8\<close>, \<open>$\<close>, \<open>A\<close>.  Every run is the first of its character, so every threshold is
  0.  The samples are the text positions of the first and of the last BWT character of
  each run.
\<close>

definition hahb_bwt :: rle_string where
  "hahb_bwt = [CHR ''B'', CHR 0xC8, CHR 0xC8, CHR 0x01, CHR ''A'']"

definition hahb_text :: "uchar list" where
  "hahb_text = [CHR 0xC8, CHR ''A'', CHR 0xC8, CHR ''B'', CHR 0x01]"

definition hahb :: ms_pointers where
  "hahb =
     \<lparr> bwt = hahb_bwt, F = map (\<lambda>k. C_array hahb_bwt (char_of k)) [0..<256],
       terminator_position = 3, r = 4, samples_last = [3, 2, 4, 1],
       thresholds = [0, 0, 0, 0], num_runs = 4, samples_start = [3, 0, 4, 1] \<rparr>"

text \<open>The index of the reference \<open>A$\<close>, whose BWT is \<open>A$\<close> as well.\<close>

definition tiny_bwt :: rle_string where
  "tiny_bwt = [CHR ''A'', CHR 0x01]"

definition tiny_text :: "uchar list" where
  "tiny_text = [CHR ''A'', CHR 0x01]"

definition tiny_index :: ms_pointers where
  "tiny_index =
     \<lparr> bwt = tiny_bwt, F = map (\<lambda>k. C_array tiny_bwt (char_of k)) [0..<256],
       terminator_position = 1, r = 2, samples_last = [0, 1],
       thresholds = [0, 0], num_runs = 2, samples_start = [0, 1] \<rparr>"

text \<open>
  Serializers for the example: a vector is written as its length and its entries, each a
  machine word, as section 4.7 describes \<open>F\<close>; the BWT as its length and its bytes.
\<close>

definition put_words :: "ulint list \<Rightarrow> uchar list" where
  "put_words xs = write_word (length xs) @ concat (map write_word xs)"

fun get_words_n :: "nat \<Rightarrow> uchar list \<Rightarrow> (ulint list \<times> uchar list) option" where
  "get_words_n 0 s = Some ([], s)"
| "get_words_n (Suc k) s = do {
     (x, s) \<leftarrow> read_word s;
     (xs, s) \<leftarrow> get_words_n k s;
     Some (x # xs, s)
   }"

definition get_words :: "uchar list \<Rightarrow> (ulint list \<times> uchar list) option" where
  "get_words s = do { (k, s) \<leftarrow> read_word s; get_words_n k s }"

definition put_bytes :: "uchar list \<Rightarrow> uchar list" where
  "put_bytes b = write_word (length b) @ b"

definition get_bytes :: "uchar list \<Rightarrow> (uchar list \<times> uchar list) option" where
  "get_bytes s = do {
     (k, s) \<leftarrow> read_word s;
     if k \<le> length s then Some (take k s, drop k s) else None
   }"

definition plain_codecs :: codecs where
  "plain_codecs =
     \<lparr> put_F = put_words, get_F = get_words, put_bwt = put_bytes, get_bwt = get_bytes,
       put_int_vector = put_words, get_int_vector = get_words,
       put_thresholds = (\<lambda>b. put_words), get_thresholds = (\<lambda>b. get_words) \<rparr>"

definition fresh_index :: ms_pointers where
  "fresh_index =
     \<lparr> bwt = [], F = [], terminator_position = 0, r = 0, samples_last = [],
       thresholds = [], num_runs = 0, samples_start = [] \<rparr>"

section \<open>Properties of the primitives\<close>

lemma u64_id: "x < 18446744073709551616 \<Longrightarrow> u64 x = x"
  by (simp add: u64_def)

lemma u64_dec_pos: "0 < x \<Longrightarrow> x < 18446744073709551616 \<Longrightarrow> u64_dec x = x - 1"
  by (simp add: u64_dec_def u64_def mod_if)

lemma u64_dec_zero: "u64_dec 0 = 18446744073709551615"
  by (simp add: u64_dec_def u64_def)

lemma length_occurrences: "length (occurrences b c) = count_list b c"
proof -
  have "filter (\<lambda>x. x = c) b = filter (\<lambda>x. x = c) (map (nth b) [0..<length b])"
    by (simp add: map_nth)
  also have "\<dots> = map (nth b) (occurrences b c)"
    by (simp add: filter_map occurrences_def comp_def)
  finally have "length (filter (\<lambda>x. x = c) b) = length (occurrences b c)"
    by (metis length_map)
  moreover have "count_list b c = length (filter (\<lambda>x. x = c) b)"
    by (induction b) auto
  ultimately show ?thesis by simp
qed

lemma rank_le: "rank b i c \<le> number_of_letter b c"
proof -
  have "count_list (take i b) c + count_list (drop i b) c = count_list b c"
    by (metis append_take_drop_id count_list_append)
  then show ?thesis by (simp add: rank_def number_of_letter_def)
qed

lemma select_Some:
  assumes "select b k c = Some j"
  shows "j < length b \<and> b ! j = c \<and> k < number_of_letter b c"
proof -
  from assms have k: "k < length (occurrences b c)" and j: "j = occurrences b c ! k"
    by (auto simp: select_def split: if_splits)
  then have "j \<in> set (occurrences b c)" by simp
  then show ?thesis using k by (auto simp: occurrences_def number_of_letter_def length_occurrences[symmetric])
qed

lemma select_defined: "k < number_of_letter b c \<Longrightarrow> \<exists>j. select b k c = Some j"
  by (simp add: select_def number_of_letter_def length_occurrences)

lemma run_of_position_Some:
  "j < length b \<Longrightarrow> \<exists>k. run_of_position b j = Some k \<and> k < number_of_runs b"
proof -
  assume j: "j < length b"
  have "length (filter (\<lambda>i. i \<le> j) (run_heads b)) \<le> length (run_heads b)"
    by (rule length_filter_le)
  with j show ?thesis by (auto simp: run_of_position_def number_of_runs_def le_imp_less_Suc)
qed

lemma of_char_lt_256: "of_char (c::char) < (256::nat)"
  by (metis of_char_mod_256 mod_less_divisor zero_less_numeral)

lemma same_char_iff: "same_char b c \<longleftrightarrow> b = c \<and> of_char c < (128::nat)"
proof (cases "of_char c < (128::nat)")
  case True
  then show ?thesis by (simp add: same_char_def char_value_def)
next
  case False
  have "int (of_char c) < 256" using of_char_lt_256[of c] by linarith
  moreover have "0 \<le> int (of_char b)" by simp
  ultimately have "int (of_char b) \<noteq> int (of_char c) - 256" by linarith
  then show ?thesis using False by (simp add: same_char_def char_value_def)
qed

lemma F_ok_nth: "F_ok idx \<Longrightarrow> F idx ! of_char c = C_array (bwt idx) c"
  using of_char_lt_256[of c] by (simp add: F_ok_def)

lemma F_ok_at: "F_ok idx \<Longrightarrow> at (F idx) (of_char c) = Some (C_array (bwt idx) c)"
  using of_char_lt_256[of c] by (simp add: F_ok_def at_def)

lemma C_array_plus_le: "C_array b c + number_of_letter b c \<le> length b"
proof -
  have "length (filter (\<lambda>x. x < c) b) + length (filter (\<lambda>x. x = c) b) \<le> length b"
    by (induction b) auto
  moreover have "count_list b c = length (filter (\<lambda>x. x = c) b)"
    by (induction b) auto
  ultimately show ?thesis by (simp add: C_array_def number_of_letter_def)
qed

lemma LF_ok:
  assumes "F_ok idx" "length (bwt idx) < 18446744073709551615"
  shows "LF idx i c = Some (spec_LF idx i c) \<and> spec_LF idx i c \<le> length (bwt idx)"
proof -
  have "C_array (bwt idx) c + rank (bwt idx) i c \<le> length (bwt idx)"
    using C_array_plus_le[of "bwt idx" c] rank_le[of "bwt idx" i c] by linarith
  then show ?thesis using assms
    by (simp add: LF_def F_ok_at F_ok_nth spec_LF_def u64_id)
qed



lemma select_spec: "k < number_of_letter b c \<Longrightarrow> select b k c = Some (spec_select b k c)"
  by (simp add: select_def spec_select_def number_of_letter_def length_occurrences)

lemma spec_select_props:
  "k < number_of_letter b c \<Longrightarrow> spec_select b k c < length b \<and> b ! spec_select b k c = c"
  using select_Some[of b k c "spec_select b k c"] select_spec[of k b c] by simp

lemma run_of_position_spec:
  "j < length b \<Longrightarrow> run_of_position b j = Some (spec_run_of_position b j)"
  by (simp add: run_of_position_def spec_run_of_position_def)

lemma spec_run_of_position_less: "j < length b \<Longrightarrow> spec_run_of_position b j < number_of_runs b"
  using run_of_position_Some[of j b] run_of_position_spec[of j b] by auto

lemma number_of_letter_pos_iff: "0 < number_of_letter b c \<longleftrightarrow> c \<in> set b"
  by (induction b) (auto simp: number_of_letter_def)

lemma pml_update_snap_above:
  assumes ok: "pml_index_ok idx"
    and rnk: "rnk < number_of_letter (bwt idx) c"
    and thr: "pos < thresholds idx ! spec_run_of_position (bwt idx) (spec_select (bwt idx) rnk c)"
  shows "0 < rnk"
proof (rule ccontr)
  assume "\<not> 0 < rnk"
  then have z: "rnk = 0" by simp
  let ?b = "bwt idx"
  let ?j = "spec_select ?b 0 c"
  have c: "c \<in> set ?b" using rnk number_of_letter_pos_iff[of ?b c] by simp
  have sel: "select ?b 0 c = Some ?j" using rnk z select_spec by simp
  have j: "?j < length ?b" using rnk z spec_select_props by blast
  have run: "run_of_position ?b ?j = Some (spec_run_of_position ?b ?j)"
    using j by (rule run_of_position_spec)
  from ok have "first_thresholds_zero idx" by (simp add: pml_index_ok_def)
  with c sel run have "at (thresholds idx) (spec_run_of_position ?b ?j) = Some 0"
    by (auto simp: first_thresholds_zero_def)
  then have "thresholds idx ! spec_run_of_position ?b ?j = 0"
    by (simp add: at_def split: if_splits)
  with thr z show False by simp
qed

lemma resnap:
  "k < number_of_letter b c \<Longrightarrow>
   select b k c \<bind> (\<lambda>j. run_of_position b j \<bind> (\<lambda>run_of_j. Some (x, j))) = Some (x, spec_select b k c)"
  using spec_select_props[of k b c] by (simp add: select_spec run_of_position_spec)

lemma pml_update_next:
  assumes ok: "pml_index_ok idx" and pos: "pos \<le> length (bwt idx)" and len: "len < INT_MAX"
  shows "pml_update idx c (pos, len) = Some (pml_next idx c (pos, len))"
proof -
  let ?b = "bwt idx"
  let ?occ = "number_of_letter ?b c"
  let ?rnk = "rank ?b pos c"
  from ok have n: "length ?b < 18446744073709551615"
    and thr_len: "length (thresholds idx) = number_of_runs ?b"
    by (simp_all add: pml_index_ok_def)
  have rnk_le: "?rnk \<le> ?occ" by (rule rank_le)
  have occ_le: "?occ \<le> length ?b" using C_array_plus_le[of ?b c] by simp
  consider (absent) "?occ = 0"
    | (match) "?occ \<noteq> 0" "pos < length ?b \<and> same_char (?b ! pos) c"
    | (below) "?occ \<noteq> 0" "\<not> (pos < length ?b \<and> same_char (?b ! pos) c)" "?rnk < ?occ"
    | (last) "?occ \<noteq> 0" "\<not> (pos < length ?b \<and> same_char (?b ! pos) c)" "\<not> ?rnk < ?occ"
    by blast
  then show ?thesis
  proof cases
    case absent
    then show ?thesis by (simp add: pml_update_def pml_next_def)
  next
    case match
    then show ?thesis using len
      by (simp add: pml_update_def pml_next_def size_bwt_def)
  next
    case below
    let ?j = "spec_select ?b ?rnk c"
    let ?k = "spec_run_of_position ?b ?j"
    have sel: "select ?b ?rnk c = Some ?j" using below(3) by (rule select_spec)
    have j: "?j < length ?b" using below(3) spec_select_props by blast
    have run: "run_of_position ?b ?j = Some ?k" using j by (rule run_of_position_spec)
    have thr: "at (thresholds idx) ?k = Some (thresholds idx ! ?k)"
      using spec_run_of_position_less[OF j] thr_len by (simp add: at_def)
    show ?thesis
    proof (cases "pos < thresholds idx ! ?k")
      case True
      have r0: "0 < ?rnk" using ok below(3) True by (rule pml_update_snap_above)
      have dec: "u64_dec ?rnk = ?rnk - 1"
        using r0 rnk_le occ_le n by (intro u64_dec_pos) auto
      have lt: "?rnk - Suc 0 < ?occ" using below(3) by simp
      show ?thesis using below True
        by (simp add: pml_update_def pml_next_def size_bwt_def sel run thr dec
            resnap[OF lt] Let_def)
    next
      case False
      show ?thesis using below False
        by (simp add: pml_update_def pml_next_def size_bwt_def sel run thr Let_def)
    qed
  next
    case last
    have eq: "?rnk = ?occ" using last(3) rnk_le by simp
    have r0: "0 < ?rnk" using eq last(1) by simp
    have dec: "u64_dec ?rnk = ?rnk - 1"
      using r0 rnk_le occ_le n by (intro u64_dec_pos) auto
    have lt: "?rnk - Suc 0 < ?occ" using eq r0 by simp
    have sent: "u64 (Suc (length ?b)) = Suc (length ?b)" using n by (intro u64_id) simp
    show ?thesis using last pos
      by (simp add: pml_update_def pml_next_def size_bwt_def dec resnap[OF lt] sent Let_def)
  qed
qed


lemma pml_next_len:
  "snd (pml_next idx c (pos, len)) \<le> len + 1"
  by (simp add: pml_next_def Let_def)

lemma pml_run_after:
  assumes ok: "pml_index_ok idx"
  shows "fst st \<le> length (bwt idx) \<Longrightarrow> snd st + length cs \<le> INT_MAX \<Longrightarrow>
         \<exists>out. pml_run idx cs st = Some out \<and> length out = length cs \<and>
           (\<forall>i<length cs. out ! i = snd (pml_after idx (take (Suc i) cs) st))"
proof (induction cs arbitrary: st)
  case Nil
  show ?case by simp
next
  case (Cons c cs)
  obtain pos len where st: "st = (pos, len)" by (cases st)
  obtain pos' len' where tr: "pml_next idx c (pos, len) = (pos', len')"
    by (cases "pml_next idx c (pos, len)")
  from ok have F: "F_ok idx" and n: "length (bwt idx) < 18446744073709551615"
    by (simp_all add: pml_index_ok_def)
  have up: "pml_update idx c (pos, len) = Some (pos', len')"
    using pml_update_next[OF ok, of pos len c] Cons.prems st tr by simp
  have lf: "LF idx pos' c = Some (spec_LF idx pos' c)" "spec_LF idx pos' c \<le> length (bwt idx)"
    using LF_ok[OF F n, of pos' c] by simp_all
  have len': "len' \<le> len + 1" using pml_next_len[of idx c pos len] tr by simp
  let ?st' = "(spec_LF idx pos' c, len')"
  have step: "pml_next_step idx c st = ?st'" by (simp add: pml_next_step_def st tr)
  have "fst ?st' \<le> length (bwt idx)" using lf by simp
  moreover have "snd ?st' + length cs \<le> INT_MAX" using Cons.prems len' st by simp
  ultimately obtain out where out: "pml_run idx cs ?st' = Some out" "length out = length cs"
      "\<forall>i<length cs. out ! i = snd (pml_after idx (take (Suc i) cs) ?st')"
    using Cons.IH[of ?st'] by blast
  have run: "pml_run idx (c # cs) st = Some (len' # out)"
    by (simp add: st up lf out)
  have "\<forall>i<length (c # cs). (len' # out) ! i = snd (pml_after idx (take (Suc i) (c # cs)) st)"
  proof (intro allI impI)
    fix i assume "i < length (c # cs)"
    then show "(len' # out) ! i = snd (pml_after idx (take (Suc i) (c # cs)) st)"
      using out(3) step by (cases i) simp_all
  qed
  with run out(2) show ?case by simp
qed

lemma drop_update_same: "k < length xs \<Longrightarrow> drop k (xs[k := v]) = v # drop (Suc k) xs"
proof (induction xs arbitrary: k)
  case Nil
  then show ?case by simp
next
  case (Cons x xs)
  then show ?case by (cases k) simp_all
qed

lemma pml_for_run:
  "i \<le> m \<Longrightarrow> m = length pattern \<Longrightarrow> length lengths = m \<Longrightarrow>
   pml_for idx pattern m i st lengths =
     map_option (\<lambda>out. rev out @ drop (m - i) lengths) (pml_run idx (drop i (rev pattern)) st)"
proof (induction idx pattern m i st lengths rule: pml_for.induct)
  case (1 idx pattern m i st lengths)
  show ?case
  proof (cases "i < m")
    case False
    with 1(2,3) show ?thesis by (subst pml_for.simps) simp
  next
    case True
    let ?c = "pattern ! (m - i - 1)"
    have c: "rev pattern ! i = ?c" using True 1(3) by (simp add: rev_nth)
    have dr: "drop i (rev pattern) = ?c # drop (Suc i) (rev pattern)"
      using True 1(3) c by (metis Cons_nth_drop_Suc length_rev)
    show ?thesis
    proof (cases "pml_update idx ?c st")
      case None
      then show ?thesis using True by (subst pml_for.simps) (simp add: dr)
    next
      case (Some a)
      obtain pos len where a: "a = (pos, len)" by (cases a)
      show ?thesis
      proof (cases "LF idx pos ?c")
        case None
        then show ?thesis using True Some a
          by (subst pml_for.simps) (simp add: dr)
      next
        case (Some pos')
        have IH: "pml_for idx pattern m (Suc i) (pos', len) (lengths[m - i - 1 := len]) =
            map_option (\<lambda>out. rev out @ drop (m - Suc i) (lengths[m - i - 1 := len]))
              (pml_run idx (drop (Suc i) (rev pattern)) (pos', len))"
          using 1(1)[OF True refl \<open>pml_update idx ?c st = Some a\<close> a[symmetric] refl Some]
            True 1(3,4) by simp
        have upd: "drop (m - Suc i) (lengths[m - i - 1 := len]) = len # drop (m - i) lengths"
        proof -
          have "m - Suc i < length lengths" using True 1(4) by simp
          then have "drop (m - Suc i) (lengths[m - Suc i := len])
                 = len # drop (Suc (m - Suc i)) lengths"
            by (rule drop_update_same)
          moreover have "Suc (m - Suc i) = m - i" using True by simp
          ultimately show ?thesis using True 1(4) by simp
        qed
        have IH': "pml_for idx pattern m (Suc i) (pos', len) (lengths[m - Suc i := len]) =
            map_option (\<lambda>out. rev out @ len # drop (m - i) lengths)
              (pml_run idx (drop (Suc i) (rev pattern)) (pos', len))"
          using IH upd by simp
        show ?thesis using True \<open>pml_update idx ?c st = Some a\<close> a Some
          by (subst pml_for.simps)
             (cases "pml_run idx (drop (Suc i) (rev pattern)) (pos', len)"; simp add: dr IH')
      qed
    qed
  qed
qed

section \<open>The loops as recursions over the pattern\<close>

lemma for_bridge:
  assumes eq: "\<And>i st out. f i st out =
      (if i < m then
         (case step (pattern ! (m - i - 1)) st of
            None \<Rightarrow> None
          | Some (st', v) \<Rightarrow> f (Suc i) st' (out[m - i - 1 := v]))
       else Some out)"
    and m: "m = length pattern"
  shows "i \<le> m \<Longrightarrow> length out = m \<Longrightarrow>
    f i st out = map_option (\<lambda>vs. rev vs @ drop (m - i) out) (run step (drop i (rev pattern)) st)"
proof (induction "m - i" arbitrary: i st out)
  case 0
  then have "i = m" by simp
  then show ?case using 0 m by (subst eq) simp
next
  case (Suc k)
  then have i: "i < m" by simp
  let ?c = "pattern ! (m - i - 1)"
  have "rev pattern ! i = ?c" using i m by (simp add: rev_nth)
  moreover have "drop i (rev pattern) = rev pattern ! i # drop (Suc i) (rev pattern)"
    using i m by (simp add: Cons_nth_drop_Suc)
  ultimately have dr: "drop i (rev pattern) = ?c # drop (Suc i) (rev pattern)" by simp
  show ?case
  proof (cases "step ?c st")
    case None
    then show ?thesis using i by (subst eq) (simp add: dr)
  next
    case (Some a)
    obtain st' v where a: "a = (st', v)" by (cases a)
    have k: "k = m - Suc i" using Suc(2) by simp
    have upd: "drop (m - Suc i) (out[m - Suc i := v]) = v # drop (m - i) out"
      using drop_update_same[of "m - Suc i" out v] i Suc(4)
      by (simp add: Suc_diff_Suc)
    have IH: "f (Suc i) st' (out[m - Suc i := v]) =
        map_option (\<lambda>vs. rev vs @ v # drop (m - i) out)
          (run step (drop (Suc i) (rev pattern)) st')"
      using Suc(1)[OF k, of "out[m - Suc i := v]" st'] i Suc(4) by (simp add: upd)
    show ?thesis using i Some a
      by (subst eq) (cases "run step (drop (Suc i) (rev pattern)) st'"; simp add: dr IH)
  qed
qed

lemma for_bridge2:
  assumes eq: "\<And>i st o1 o2. f i st (o1, o2) =
      (if i < m then
         (case step (pattern ! (m - i - 1)) st of
            None \<Rightarrow> None
          | Some (st', v1, v2) \<Rightarrow> f (Suc i) st' (o1[m - i - 1 := v1], o2[m - i - 1 := v2]))
       else Some (o1, o2))"
    and m: "m = length pattern"
  shows "i \<le> m \<Longrightarrow> length o1 = m \<Longrightarrow> length o2 = m \<Longrightarrow>
    f i st (o1, o2) =
      map_option (\<lambda>vs. (rev (map fst vs) @ drop (m - i) o1, rev (map snd vs) @ drop (m - i) o2))
        (run step (drop i (rev pattern)) st)"
proof (induction "m - i" arbitrary: i st o1 o2)
  case 0
  then have "i = m" by simp
  then show ?case using 0 m by (subst eq) simp
next
  case (Suc k)
  then have i: "i < m" by simp
  let ?c = "pattern ! (m - i - 1)"
  have "rev pattern ! i = ?c" using i m by (simp add: rev_nth)
  moreover have "drop i (rev pattern) = rev pattern ! i # drop (Suc i) (rev pattern)"
    using i m by (simp add: Cons_nth_drop_Suc)
  ultimately have dr: "drop i (rev pattern) = ?c # drop (Suc i) (rev pattern)" by simp
  show ?case
  proof (cases "step ?c st")
    case None
    then show ?thesis using i by (subst eq) (simp add: dr)
  next
    case (Some a)
    obtain st' v1 v2 where a: "a = (st', v1, v2)" by (cases a)
    have k: "k = m - Suc i" using Suc(2) by simp
    have upd1: "drop (m - Suc i) (o1[m - Suc i := v1]) = v1 # drop (m - i) o1"
      using drop_update_same[of "m - Suc i" o1 v1] i Suc(4)
      by (simp add: Suc_diff_Suc)
    have upd2: "drop (m - Suc i) (o2[m - Suc i := v2]) = v2 # drop (m - i) o2"
      using drop_update_same[of "m - Suc i" o2 v2] i Suc(5)
      by (simp add: Suc_diff_Suc)
    have IH: "f (Suc i) st' (o1[m - Suc i := v1], o2[m - Suc i := v2]) =
        map_option (\<lambda>vs. (rev (map fst vs) @ v1 # drop (m - i) o1,
                          rev (map snd vs) @ v2 # drop (m - i) o2))
          (run step (drop (Suc i) (rev pattern)) st')"
      using Suc(1)[OF k, of "o1[m - Suc i := v1]" "o2[m - Suc i := v2]" st'] i Suc(4,5)
      by (simp add: upd1 upd2)
    show ?thesis using i Some a
      by (subst eq) (cases "run step (drop (Suc i) (rev pattern)) st'"; simp add: dr IH)
  qed
qed

lemma ms_for_eq:
  "ms_for idx pattern m i st out =
      (if i < m then
         (case ms_body idx (pattern ! (m - i - 1)) st of
            None \<Rightarrow> None
          | Some (st', v) \<Rightarrow> ms_for idx pattern m (Suc i) st' (out[m - i - 1 := v]))
       else Some out)"
  by (subst ms_for.simps)
     (auto simp: ms_body_def Let_def split: option.splits prod.splits bind_splits)

lemma ms_query_run:
  "ms_query idx P =
     get_last_run_sample idx \<bind>
       (\<lambda>sample. map_option rev (run (ms_body idx) (rev P) (u64_dec (bwt_size idx), sample)))"
proof -
  have "\<And>st. ms_for idx P (length P) 0 st (replicate (length P) 0)
      = map_option (\<lambda>vs. rev vs @ drop (length P - 0) (replicate (length P) 0))
          (run (ms_body idx) (drop 0 (rev P)) st)"
    by (rule for_bridge[where f = "ms_for idx P (length P)"]) (simp_all add: ms_for_eq[symmetric])
  then show ?thesis by (simp add: ms_query_def cong: option.map_cong)
qed

lemma pml_for_doc_eq:
  "pml_for_doc idx doc_arr pattern m i st (o1, o2) =
      (if i < m then
         (case pml_body_doc idx doc_arr (pattern ! (m - i - 1)) st of
            None \<Rightarrow> None
          | Some (st', v1, v2) \<Rightarrow>
              pml_for_doc idx doc_arr pattern m (Suc i) st' (o1[m - i - 1 := v1], o2[m - i - 1 := v2]))
       else Some (o1, o2))"
  by (subst pml_for_doc.simps)
     (auto simp: pml_body_doc_def Let_def split: option.splits prod.splits bind_splits)

lemma ms_for_doc_eq:
  "ms_for_doc idx doc_arr pattern m i st (o1, o2) =
      (if i < m then
         (case ms_body_doc idx doc_arr (pattern ! (m - i - 1)) st of
            None \<Rightarrow> None
          | Some (st', v1, v2) \<Rightarrow>
              ms_for_doc idx doc_arr pattern m (Suc i) st' (o1[m - i - 1 := v1], o2[m - i - 1 := v2]))
       else Some (o1, o2))"
  by (subst ms_for_doc.simps)
     (auto simp: ms_body_doc_def Let_def split: option.splits prod.splits bind_splits)

lemma pml_query_doc_run:
  "pml_query_doc idx doc_arr P =
     at (end_runs_doc doc_arr) (u64_dec (number_of_runs (bwt idx))) \<bind>
       (\<lambda>d. map_option (\<lambda>vs. (rev (map fst vs), rev (map snd vs)))
              (run (pml_body_doc idx doc_arr) (rev P) (u64_dec (bwt_size idx), 0, d)))"
proof -
  have "\<And>st. pml_for_doc idx doc_arr P (length P) 0 st (replicate (length P) 0, replicate (length P) 0)
      = map_option (\<lambda>vs. (rev (map fst vs) @ drop (length P - 0) (replicate (length P) 0),
                          rev (map snd vs) @ drop (length P - 0) (replicate (length P) 0)))
          (run (pml_body_doc idx doc_arr) (drop 0 (rev P)) st)"
    by (rule for_bridge2[where f = "pml_for_doc idx doc_arr P (length P)"])
       (simp_all add: pml_for_doc_eq[symmetric])
  then show ?thesis by (simp add: pml_query_doc_def cong: option.map_cong)
qed

lemma ms_query_doc_run:
  "ms_query_doc idx doc_arr P =
     get_last_run_sample idx \<bind> (\<lambda>sample.
     at (end_runs_doc doc_arr) (u64_dec (number_of_runs (bwt idx))) \<bind>
       (\<lambda>d. map_option (\<lambda>vs. (rev (map fst vs), rev (map snd vs)))
              (run (ms_body_doc idx doc_arr) (rev P) (u64_dec (bwt_size idx), sample, d))))"
proof -
  have "\<And>st. ms_for_doc idx doc_arr P (length P) 0 st (replicate (length P) 0, replicate (length P) 0)
      = map_option (\<lambda>vs. (rev (map fst vs) @ drop (length P - 0) (replicate (length P) 0),
                          rev (map snd vs) @ drop (length P - 0) (replicate (length P) 0)))
          (run (ms_body_doc idx doc_arr) (drop 0 (rev P)) st)"
    by (rule for_bridge2[where f = "ms_for_doc idx doc_arr P (length P)"])
       (simp_all add: ms_for_doc_eq[symmetric])
  then show ?thesis by (simp add: ms_query_doc_def cong: option.map_cong)
qed

section \<open>The MS update on a loaded index\<close>

lemma number_of_runs_le: "number_of_runs b \<le> length b"
proof (cases b)
  case Nil
  then show ?thesis by (simp add: number_of_runs_def)
next
  case (Cons x xs)
  have "length (run_heads b) \<le> length [1..<length b]"
    unfolding run_heads_def by (rule length_filter_le)
  then have "length (run_heads b) \<le> length b - 1" by (simp only: length_upt)
  then show ?thesis using Cons by (simp add: number_of_runs_def)
qed

lemma run_invariant:
  assumes step: "\<And>c st. I st \<Longrightarrow> step c st = Some (sstep c st, emit (sstep c st)) \<and> I (sstep c st)"
  shows "I st \<Longrightarrow> \<exists>out. run step cs st = Some out \<and> length out = length cs \<and>
           (\<forall>i<length cs. out ! i = emit (foldl (\<lambda>s c. sstep c s) st (take (Suc i) cs)))"
proof (induction cs arbitrary: st)
  case Nil
  show ?case by simp
next
  case (Cons c cs)
  from step[OF Cons.prems, of c]
  have s: "step c st = Some (sstep c st, emit (sstep c st))" and I': "I (sstep c st)" by simp_all
  from Cons.IH[OF I'] obtain out where out: "run step cs (sstep c st) = Some out"
      "length out = length cs"
      "\<forall>i<length cs. out ! i = emit (foldl (\<lambda>s c. sstep c s) (sstep c st) (take (Suc i) cs))"
    by blast
  have "\<forall>i<length (c # cs). (emit (sstep c st) # out) ! i
          = emit (foldl (\<lambda>s c. sstep c s) st (take (Suc i) (c # cs)))"
  proof (intro allI impI)
    fix i assume "i < length (c # cs)"
    then show "(emit (sstep c st) # out) ! i = emit (foldl (\<lambda>s c. sstep c s) st (take (Suc i) (c # cs)))"
      using out(3) by (cases i) simp_all
  qed
  then show ?case using s out(1,2) by simp
qed

lemma resnap_sample:
  assumes "k < number_of_letter b c" "length v = number_of_runs b"
  shows "select b k c \<bind> (\<lambda>j. run_of_position b j \<bind> (\<lambda>run_of_j. at v run_of_j \<bind> (\<lambda>s. Some (s, j))))
         = Some (v ! spec_run_of_position b (spec_select b k c), spec_select b k c)"
proof -
  have j: "spec_select b k c < length b" using assms(1) spec_select_props by blast
  then have "spec_run_of_position b (spec_select b k c) < length v"
    using spec_run_of_position_less assms(2) by simp
  then show ?thesis using assms(1) j
    by (simp add: select_spec run_of_position_spec at_def)
qed

lemma ms_update_next:
  assumes ok: "ms_index_ok idx" and pos: "pos \<le> length (bwt idx)"
  shows "ms_update idx c (pos, sample) = Some (ms_next idx c (pos, sample))"
proof -
  let ?b = "bwt idx"
  let ?occ = "number_of_letter ?b c"
  let ?rnk = "rank ?b pos c"
  from ok have pok: "pml_index_ok idx"
    and ss: "length (samples_start idx) = number_of_runs ?b"
    and sl: "length (samples_last idx) = number_of_runs ?b"
    by (simp_all add: ms_index_ok_def)
  from pok have n: "length ?b < 18446744073709551615"
    and thr_len: "length (thresholds idx) = number_of_runs ?b"
    by (simp_all add: pml_index_ok_def)
  have rnk_le: "?rnk \<le> ?occ" by (rule rank_le)
  have occ_le: "?occ \<le> length ?b" using C_array_plus_le[of ?b c] by simp
  consider (absent) "?occ = 0"
    | (match) "?occ \<noteq> 0" "pos < length ?b \<and> same_char (?b ! pos) c"
    | (below) "?occ \<noteq> 0" "\<not> (pos < length ?b \<and> same_char (?b ! pos) c)" "?rnk < ?occ"
    | (last) "?occ \<noteq> 0" "\<not> (pos < length ?b \<and> same_char (?b ! pos) c)" "\<not> ?rnk < ?occ"
    by blast
  then show ?thesis
  proof cases
    case absent
    then show ?thesis by (simp add: ms_update_def ms_next_def)
  next
    case match
    then show ?thesis
      by (simp add: ms_update_def ms_next_def size_bwt_def)
  next
    case below
    let ?j = "spec_select ?b ?rnk c"
    let ?k = "spec_run_of_position ?b ?j"
    have sel: "select ?b ?rnk c = Some ?j" using below(3) by (rule select_spec)
    have j: "?j < length ?b" using below(3) spec_select_props by blast
    have run: "run_of_position ?b ?j = Some ?k" using j by (rule run_of_position_spec)
    have k: "?k < number_of_runs ?b" using j by (rule spec_run_of_position_less)
    have thr: "at (thresholds idx) ?k = Some (thresholds idx ! ?k)"
      using k thr_len by (simp add: at_def)
    have smp: "at (samples_start idx) ?k = Some (samples_start idx ! ?k)"
      using k ss by (simp add: at_def)
    show ?thesis
    proof (cases "pos < thresholds idx ! ?k")
      case True
      have r0: "0 < ?rnk" using pok below(3) True by (rule pml_update_snap_above)
      have dec: "u64_dec ?rnk = ?rnk - 1"
        using r0 rnk_le occ_le n by (intro u64_dec_pos) auto
      have lt: "?rnk - Suc 0 < ?occ" using below(3) by simp
      show ?thesis using below(1,3) True
        by (simp add: ms_update_def ms_next_def size_bwt_def sel run thr smp dec
            resnap_sample[OF lt sl] Let_def below(2))
    next
      case False
      show ?thesis using below(1,3) False
        by (simp add: ms_update_def ms_next_def size_bwt_def sel run thr smp Let_def below(2))
    qed
  next
    case last
    have eq: "?rnk = ?occ" using last(3) rnk_le by simp
    have r0: "0 < ?rnk" using eq last(1) by simp
    have dec: "u64_dec ?rnk = ?rnk - 1"
      using r0 rnk_le occ_le n by (intro u64_dec_pos) auto
    have lt: "?rnk - Suc 0 < ?occ" using eq r0 by simp
    have sent: "u64 (Suc (length ?b)) = Suc (length ?b)" using n by (intro u64_id) simp
    show ?thesis using last(1,3) pos
      by (simp add: ms_update_def ms_next_def size_bwt_def dec resnap_sample[OF lt sl] sent Let_def last(2))
  qed
qed

lemma ms_body_next:
  assumes ok: "ms_index_ok idx" and pos: "fst st \<le> length (bwt idx)"
  shows "ms_body idx c st = Some (ms_next_step idx c st, snd (ms_next_step idx c st))
         \<and> fst (ms_next_step idx c st) \<le> length (bwt idx)"
proof -
  obtain p s where st: "st = (p, s)" by (cases st)
  obtain p' s' where tr: "ms_next idx c (p, s) = (p', s')"
    by (cases "ms_next idx c (p, s)")
  from ok have F: "F_ok idx" and n: "length (bwt idx) < 18446744073709551615"
    by (simp_all add: ms_index_ok_def pml_index_ok_def)
  have up: "ms_update idx c (p, s) = Some (p', s')"
    using ms_update_next[OF ok, of p c s] pos st tr by simp
  have lf: "LF idx p' c = Some (spec_LF idx p' c)" "spec_LF idx p' c \<le> length (bwt idx)"
    using LF_ok[OF F n, of p' c] by simp_all
  show ?thesis by (simp add: ms_body_def ms_next_step_def st tr up lf)
qed

lemma init_pos: "pml_index_ok idx \<Longrightarrow> u64_dec (bwt_size idx) = length (bwt idx) - 1"
  by (simp add: pml_index_ok_def bwt_size_def size_bwt_def u64_dec_pos)

lemma init_pos_le: "pml_index_ok idx \<Longrightarrow> u64_dec (bwt_size idx) \<le> length (bwt idx)"
  by (simp add: init_pos)

lemma last_run_sample_spec:
  assumes "ms_index_ok idx"
  shows "get_last_run_sample idx = Some (samples_last idx ! (r idx - 1))"
proof -
  from assms have pok: "pml_index_ok idx" and rr: "r idx = number_of_runs (bwt idx)"
    and sl: "length (samples_last idx) = number_of_runs (bwt idx)"
    by (simp_all add: ms_index_ok_def)
  from pok have ne: "bwt idx \<noteq> []" and n: "length (bwt idx) < 18446744073709551615"
    by (simp_all add: pml_index_ok_def)
  have r0: "0 < r idx" "r idx \<le> length (bwt idx)"
    using rr ne number_of_runs_le[of "bwt idx"] by (simp_all add: number_of_runs_def)
  have rdec: "u64_dec (r idx) = r idx - 1"
    using r0 n by (intro u64_dec_pos) auto
  have "r idx - 1 < length (samples_last idx)" using r0 rr sl by simp
  then show ?thesis
    by (simp only: get_last_run_sample_def rdec at_def if_True)
qed

lemma last_run_sample_defined:
  "ms_index_ok idx \<Longrightarrow> \<exists>s. get_last_run_sample idx = Some s"
  using last_run_sample_spec by blast

section \<open>The document-aware updates\<close>

lemma run_total:
  assumes step: "\<And>c st k. I (Suc k) st \<Longrightarrow> \<exists>st' v. step c st = Some (st', v) \<and> I k st'"
  shows "I (length cs) st \<Longrightarrow> \<exists>vs. run step cs st = Some vs \<and> length vs = length cs"
proof (induction cs arbitrary: st)
  case Nil
  show ?case by simp
next
  case (Cons c cs)
  then have "I (Suc (length cs)) st" by simp
  from step[OF this, of c] obtain st' v where s: "step c st = Some (st', v)" and I': "I (length cs) st'"
    by blast
  from Cons.IH[OF I'] obtain vs where "run step cs st' = Some vs" "length vs = length cs" by blast
  then show ?case using s by simp
qed

lemma run_nth_prev:
  "run step cs st = Some vs \<Longrightarrow> k < length cs \<Longrightarrow>
   \<exists>st1 st2. step (cs ! k) st1 = Some (st2, vs ! k) \<and>
     (if k = 0 then st1 = st else \<exists>st0. step (cs ! (k - 1)) st0 = Some (st1, vs ! (k - 1)))"
proof (induction cs arbitrary: st vs k)
  case Nil
  then show ?case by simp
next
  case (Cons c cs)
  from Cons.prems(1) obtain st' v vs' where s: "step c st = Some (st', v)"
    and r: "run step cs st' = Some vs'" and vs: "vs = v # vs'"
    by (auto split: bind_splits)
  show ?case
  proof (cases k)
    case 0
    then show ?thesis using s vs by auto
  next
    case (Suc k')
    then have k': "k' < length cs" using Cons.prems(2) by simp
    from Cons.IH[OF r k'] obtain st1 st2 where a: "step (cs ! k') st1 = Some (st2, vs' ! k')"
      and b: "if k' = 0 then st1 = st' else \<exists>st0. step (cs ! (k' - 1)) st0 = Some (st1, vs' ! (k' - 1))"
      by blast
    show ?thesis
    proof (cases k')
      case 0
      then show ?thesis using a b s vs Suc by auto
    next
      case (Suc k'')
      then show ?thesis using a b vs \<open>k = Suc k'\<close> by auto
    qed
  qed
qed

lemma run_length: "run step cs st = Some vs \<Longrightarrow> length vs = length cs"
  by (induction cs arbitrary: st vs) (auto split: bind_splits)

lemma resnap_doc:
  assumes "k < number_of_letter b c" "length v = number_of_runs b"
  shows "select b k c \<bind> (\<lambda>j. run_of_position b j \<bind> (\<lambda>run_of_j. at v run_of_j \<bind> (\<lambda>d. Some (d, x, j))))
         = Some (v ! spec_run_of_position b (spec_select b k c), x, spec_select b k c)"
proof -
  have j: "spec_select b k c < length b" using assms(1) spec_select_props by blast
  then have "spec_run_of_position b (spec_select b k c) < length v"
    using spec_run_of_position_less assms(2) by simp
  then show ?thesis using assms(1) j
    by (simp add: select_spec run_of_position_spec at_def)
qed

lemma pml_update_doc_absent:
  "number_of_letter (bwt idx) c = 0 \<Longrightarrow>
   pml_update_doc idx doc_arr c (pos, len, d) = Some (pos, 0, d)"
  by (simp add: pml_update_doc_def)

lemma pml_update_doc_total:
  assumes ok: "pml_index_ok idx" and dok: "doc_array_ok idx doc_arr"
    and pos: "pos \<le> length (bwt idx)" and len: "len < INT_MAX"
  shows "\<exists>pos' len' d'. pml_update_doc idx doc_arr c (pos, len, d) = Some (pos', len', d') \<and> len' \<le> len + 1"
proof -
  let ?b = "bwt idx"
  let ?occ = "number_of_letter ?b c"
  let ?rnk = "rank ?b pos c"
  from ok have n: "length ?b < 18446744073709551615"
    and thr_len: "length (thresholds idx) = number_of_runs ?b"
    by (simp_all add: pml_index_ok_def)
  from dok have sd: "length (start_runs_doc doc_arr) = number_of_runs ?b"
    and ed: "length (end_runs_doc doc_arr) = number_of_runs ?b"
    by (simp_all add: doc_array_ok_def)
  have rnk_le: "?rnk \<le> ?occ" by (rule rank_le)
  have occ_le: "?occ \<le> length ?b" using C_array_plus_le[of ?b c] by simp
  consider (absent) "?occ = 0"
    | (match) "?occ \<noteq> 0" "pos < length ?b \<and> same_char (?b ! pos) c"
    | (below) "?occ \<noteq> 0" "\<not> (pos < length ?b \<and> same_char (?b ! pos) c)" "?rnk < ?occ"
    | (last) "?occ \<noteq> 0" "\<not> (pos < length ?b \<and> same_char (?b ! pos) c)" "\<not> ?rnk < ?occ"
    by blast
  then show ?thesis
  proof cases
    case absent
    then show ?thesis by (simp add: pml_update_doc_def)
  next
    case match
    then show ?thesis using len by (simp add: pml_update_doc_def size_bwt_def)
  next
    case below
    let ?j = "spec_select ?b ?rnk c"
    let ?k = "spec_run_of_position ?b ?j"
    have sel: "select ?b ?rnk c = Some ?j" using below(3) by (rule select_spec)
    have j: "?j < length ?b" using below(3) spec_select_props by blast
    have run: "run_of_position ?b ?j = Some ?k" using j by (rule run_of_position_spec)
    have k: "?k < number_of_runs ?b" using j by (rule spec_run_of_position_less)
    have thr: "at (thresholds idx) ?k = Some (thresholds idx ! ?k)"
      using k thr_len by (simp add: at_def)
    have doc: "at (start_runs_doc doc_arr) ?k = Some (start_runs_doc doc_arr ! ?k)"
      using k sd by (simp add: at_def)
    show ?thesis
    proof (cases "pos < thresholds idx ! ?k")
      case True
      have r0: "0 < ?rnk" using ok below(3) True by (rule pml_update_snap_above)
      have dec: "u64_dec ?rnk = ?rnk - 1"
        using r0 rnk_le occ_le n by (intro u64_dec_pos) auto
      have lt: "?rnk - Suc 0 < ?occ" using below(3) by simp
      show ?thesis using below(1,3) True
        by (simp add: pml_update_doc_def size_bwt_def sel run thr doc dec
            resnap_doc[OF lt ed] Let_def below(2))
    next
      case False
      show ?thesis using below(1,3) False
        by (simp add: pml_update_doc_def size_bwt_def sel run thr doc Let_def below(2))
    qed
  next
    case last
    have eq: "?rnk = ?occ" using last(3) rnk_le by simp
    have r0: "0 < ?rnk" using eq last(1) by simp
    have dec: "u64_dec ?rnk = ?rnk - 1"
      using r0 rnk_le occ_le n by (intro u64_dec_pos) auto
    have lt: "?rnk - Suc 0 < ?occ" using eq r0 by simp
    have sent: "u64 (Suc (length ?b)) = Suc (length ?b)" using n by (intro u64_id) simp
    show ?thesis using last(1,3) pos
      by (simp add: pml_update_doc_def size_bwt_def dec resnap_doc[OF lt ed] sent Let_def last(2))
  qed
qed

lemma pml_body_doc_total:
  assumes ok: "pml_index_ok idx" and dok: "doc_array_ok idx doc_arr"
    and I: "fst st \<le> length (bwt idx) \<and> fst (snd st) + Suc k \<le> INT_MAX"
  shows "\<exists>st' v. pml_body_doc idx doc_arr c st = Some (st', v) \<and>
           fst st' \<le> length (bwt idx) \<and> fst (snd st') + k \<le> INT_MAX"
proof -
  obtain pos len d where st: "st = (pos, len, d)" by (cases st)
  from I st have pos: "pos \<le> length (bwt idx)" and len: "len < INT_MAX" by simp_all
  from pml_update_doc_total[OF ok dok pos len, of c d]
  obtain pos' len' d' where up: "pml_update_doc idx doc_arr c (pos, len, d) = Some (pos', len', d')"
    and len': "len' \<le> len + 1" by blast
  from ok have F: "F_ok idx" and n: "length (bwt idx) < 18446744073709551615"
    by (simp_all add: pml_index_ok_def)
  have lf: "LF idx pos' c = Some (spec_LF idx pos' c)" "spec_LF idx pos' c \<le> length (bwt idx)"
    using LF_ok[OF F n, of pos' c] by simp_all
  show ?thesis using I st len' by (simp add: pml_body_doc_def st up lf)
qed

lemma pml_body_doc_absent:
  assumes "number_of_letter (bwt idx) c = 0"
    and "pml_body_doc idx doc_arr c (pos, len, d) = Some (st', v)"
  shows "v = (0, d)"
  using assms by (auto simp: pml_body_doc_def pml_update_doc_absent split: bind_splits)

lemma pml_body_doc_emits:
  assumes "pml_body_doc idx doc_arr c st = Some (st', v)"
  shows "snd (snd st') = snd v"
  using assms by (auto simp: pml_body_doc_def split: bind_splits prod.splits)

lemma run_heads_pos: "j \<in> set (run_heads b) \<Longrightarrow> 0 < j"
  by (auto simp: run_heads_def)

lemma spec_run_of_position_0: "spec_run_of_position b 0 = 0"
proof -
  have "filter (\<lambda>j. j \<le> 0) (run_heads b) = []"
    using run_heads_pos[of _ b] by (auto simp: filter_empty_conv)
  then show ?thesis by (simp add: spec_run_of_position_def)
qed

lemma ms_body_doc_absent:
  assumes "number_of_letter (bwt idx) c = 0"
    and "ms_body_doc idx doc_arr c st = Some (st', v)"
  shows "snd v = start_runs_doc doc_arr ! spec_run_of_position (bwt idx) 0"
proof -
  obtain pos sample d where st: "st = (pos, sample, d)" by (cases st)
  from assms st obtain k d' where k: "run_of_position (bwt idx) 0 = Some k"
    and d': "at (start_runs_doc doc_arr) k = Some d'" and v: "snd v = d'"
    by (auto simp: ms_body_doc_def ms_update_doc_def split: bind_splits)
  from k have "k = spec_run_of_position (bwt idx) 0"
    by (auto simp: run_of_position_def spec_run_of_position_def split: if_splits)
  with d' v show ?thesis by (auto simp: at_def split: if_splits)
qed

lemma ms_body_doc_absent_sample:
  assumes "number_of_letter (bwt idx) c = 0"
    and "ms_body_doc idx doc_arr c st = Some (st', v)"
  shows "fst v = 0"
proof -
  obtain pos sample d where st: "st = (pos, sample, d)" by (cases st)
  from assms st show ?thesis
    by (auto simp: ms_body_doc_def ms_update_doc_def split: bind_splits)
qed

lemma rev_map_nth:
  assumes "length vs = m" "i < m"
  shows "rev (map f vs) ! i = f (vs ! (m - 1 - i))"
  using assms by (simp add: rev_nth)

lemma rev_pattern_nth:
  assumes "i < length P"
  shows "rev P ! (length P - 1 - i) = P ! i"
  using assms by (simp add: rev_nth)

subsection \<open>The document-aware queries return\<close>

lemma ms_update_doc_total:
  assumes ok: "ms_index_ok idx" and dok: "doc_array_ok idx doc_arr"
    and pos: "pos \<le> length (bwt idx)"
  shows "\<exists>st'. ms_update_doc idx doc_arr c (pos, sample, d) = Some st'"
proof -
  let ?b = "bwt idx"
  let ?occ = "number_of_letter ?b c"
  let ?rnk = "rank ?b pos c"
  from ok have pok: "pml_index_ok idx"
    and ss: "length (samples_start idx) = number_of_runs ?b"
    and sl: "length (samples_last idx) = number_of_runs ?b"
    by (simp_all add: ms_index_ok_def)
  from pok have n: "length ?b < 18446744073709551615" and ne: "?b \<noteq> []"
    and thr_len: "length (thresholds idx) = number_of_runs ?b"
    by (simp_all add: pml_index_ok_def)
  from dok have sd: "length (start_runs_doc doc_arr) = number_of_runs ?b"
    and ed: "length (end_runs_doc doc_arr) = number_of_runs ?b"
    by (simp_all add: doc_array_ok_def)
  have rnk_le: "?rnk \<le> ?occ" by (rule rank_le)
  have occ_le: "?occ \<le> length ?b" using C_array_plus_le[of ?b c] by simp
  have snap: "\<And>k. k < ?occ \<Longrightarrow>
      select ?b k c = Some (spec_select ?b k c) \<and>
      run_of_position ?b (spec_select ?b k c)
        = Some (spec_run_of_position ?b (spec_select ?b k c)) \<and>
      spec_run_of_position ?b (spec_select ?b k c) < number_of_runs ?b"
  proof -
    fix k assume k: "k < ?occ"
    have j: "spec_select ?b k c < length ?b" using k spec_select_props by blast
    show "select ?b k c = Some (spec_select ?b k c) \<and>
      run_of_position ?b (spec_select ?b k c)
        = Some (spec_run_of_position ?b (spec_select ?b k c)) \<and>
      spec_run_of_position ?b (spec_select ?b k c) < number_of_runs ?b"
      using k j by (simp add: select_spec run_of_position_spec spec_run_of_position_less)
  qed
  consider (absent) "?occ = 0"
    | (match) "?occ \<noteq> 0" "pos < length ?b \<and> same_char (?b ! pos) c"
    | (below) "?occ \<noteq> 0" "\<not> (pos < length ?b \<and> same_char (?b ! pos) c)" "?rnk < ?occ"
    | (last) "?occ \<noteq> 0" "\<not> (pos < length ?b \<and> same_char (?b ! pos) c)" "\<not> ?rnk < ?occ"
    by blast
  then show ?thesis
  proof cases
    case absent
    have "0 < length ?b" using ne by simp
    then have run: "run_of_position ?b 0 = Some (spec_run_of_position ?b 0)"
      by (rule run_of_position_spec)
    have "0 < number_of_runs ?b" using ne by (simp add: number_of_runs_def)
    then have "at (start_runs_doc doc_arr) 0 = Some (start_runs_doc doc_arr ! 0)"
      using sd by (simp add: at_def)
    then show ?thesis using absent run
      by (simp add: ms_update_doc_def spec_run_of_position_0)
  next
    case match
    then show ?thesis by (simp add: ms_update_doc_def size_bwt_def)
  next
    case below
    let ?k = "spec_run_of_position ?b (spec_select ?b ?rnk c)"
    note s1 = snap[OF below(3)]
    have a1: "at (thresholds idx) ?k = Some (thresholds idx ! ?k)"
      "at (samples_start idx) ?k = Some (samples_start idx ! ?k)"
      "at (start_runs_doc doc_arr) ?k = Some (start_runs_doc doc_arr ! ?k)"
      using s1 thr_len ss sd by (simp_all add: at_def)
    show ?thesis
    proof (cases "pos < thresholds idx ! ?k")
      case True
      have r0: "0 < ?rnk" using pok below(3) True by (rule pml_update_snap_above)
      have dec: "u64_dec ?rnk = ?rnk - 1"
        using r0 rnk_le occ_le n by (intro u64_dec_pos) auto
      have lt: "?rnk - Suc 0 < ?occ" using below(3) by simp
      let ?k' = "spec_run_of_position ?b (spec_select ?b (?rnk - Suc 0) c)"
      note s2 = snap[OF lt]
      have a2: "at (samples_last idx) ?k' = Some (samples_last idx ! ?k')"
        "at (end_runs_doc doc_arr) ?k' = Some (end_runs_doc doc_arr ! ?k')"
        using s2 sl ed by (simp_all add: at_def)
      show ?thesis using below(1,3) True
        by (simp add: ms_update_doc_def size_bwt_def s1 a1 dec s2 a2 Let_def below(2))
    next
      case False
      show ?thesis using below(1,3) False
        by (simp add: ms_update_doc_def size_bwt_def s1 a1 Let_def below(2))
    qed
  next
    case last
    have eq: "?rnk = ?occ" using last(3) rnk_le by simp
    have r0: "0 < ?rnk" using eq last(1) by simp
    have dec: "u64_dec ?rnk = ?rnk - 1"
      using r0 rnk_le occ_le n by (intro u64_dec_pos) auto
    have lt: "?rnk - Suc 0 < ?occ" using eq r0 by simp
    let ?k' = "spec_run_of_position ?b (spec_select ?b (?rnk - Suc 0) c)"
    note s2 = snap[OF lt]
    have a2: "at (samples_last idx) ?k' = Some (samples_last idx ! ?k')"
      "at (end_runs_doc doc_arr) ?k' = Some (end_runs_doc doc_arr ! ?k')"
      using s2 sl ed by (simp_all add: at_def)
    have sent: "u64 (Suc (length ?b)) = Suc (length ?b)" using n by (intro u64_id) simp
    show ?thesis using last(1,3) pos
      by (simp add: ms_update_doc_def size_bwt_def dec s2 a2 sent Let_def last(2))
  qed
qed

lemma ms_body_doc_total:
  assumes ok: "ms_index_ok idx" and dok: "doc_array_ok idx doc_arr"
    and I: "fst st \<le> length (bwt idx)"
  shows "\<exists>st' v. ms_body_doc idx doc_arr c st = Some (st', v) \<and> fst st' \<le> length (bwt idx)"
proof -
  obtain pos sample d where st: "st = (pos, sample, d)" by (cases st)
  from I st have pos: "pos \<le> length (bwt idx)" by simp
  from ms_update_doc_total[OF ok dok pos, of c sample d]
  obtain pos' s' d' where up: "ms_update_doc idx doc_arr c (pos, sample, d) = Some (pos', s', d')"
    by (metis prod_cases3)
  from ok have F: "F_ok idx" and n: "length (bwt idx) < 18446744073709551615"
    by (simp_all add: ms_index_ok_def pml_index_ok_def)
  have lf: "LF idx pos' c = Some (spec_LF idx pos' c)" "spec_LF idx pos' c \<le> length (bwt idx)"
    using LF_ok[OF F n, of pos' c] by simp_all
  show ?thesis by (simp add: ms_body_doc_def st up lf)
qed

lemma ms_query_doc_total:
  assumes ok: "ms_index_ok idx" and dok: "doc_array_ok idx doc_arr"
  shows "\<exists>pointers doc_nums. ms_query_doc idx doc_arr P = Some (pointers, doc_nums)"
proof -
  from ok have pok: "pml_index_ok idx" by (simp add: ms_index_ok_def)
  from pok have ne: "bwt idx \<noteq> []" and n: "length (bwt idx) < 18446744073709551615"
    by (simp_all add: pml_index_ok_def)
  let ?r = "number_of_runs (bwt idx)"
  have r0: "0 < ?r" "?r \<le> length (bwt idx)"
    using ne number_of_runs_le[of "bwt idx"] by (simp_all add: number_of_runs_def)
  have rdec: "u64_dec ?r = ?r - 1" using r0 n by (intro u64_dec_pos) auto
  have "?r - 1 < length (end_runs_doc doc_arr)" using r0 dok by (simp add: doc_array_ok_def)
  then have d0: "at (end_runs_doc doc_arr) (u64_dec ?r) = Some (end_runs_doc doc_arr ! (?r - 1))"
    by (simp only: rdec at_def if_True)
  obtain s where s: "get_last_run_sample idx = Some s"
    using last_run_sample_defined[OF ok] by blast
  let ?st = "(u64_dec (bwt_size idx), s, end_runs_doc doc_arr ! (?r - 1))"
  have "fst ?st \<le> length (bwt idx)" using init_pos_le[OF pok] by simp
  then obtain vs where "run (ms_body_doc idx doc_arr) (rev P) ?st = Some vs"
    using run_total[where I = "\<lambda>k st. fst st \<le> length (bwt idx)"
        and step = "ms_body_doc idx doc_arr" and cs = "rev P" and st = ?st]
      ms_body_doc_total[OF ok dok]
    by blast
  then show ?thesis by (simp add: ms_query_doc_run s d0)
qed

lemma doc_initial:
  assumes ok: "pml_index_ok idx" and dok: "doc_array_ok idx doc_arr"
  shows "at (end_runs_doc doc_arr) (u64_dec (number_of_runs (bwt idx)))
         = Some (end_runs_doc doc_arr ! (number_of_runs (bwt idx) - 1))"
proof -
  let ?r = "number_of_runs (bwt idx)"
  from ok have ne: "bwt idx \<noteq> []" and n: "length (bwt idx) < 18446744073709551615"
    by (simp_all add: pml_index_ok_def)
  have r0: "0 < ?r" "?r \<le> length (bwt idx)"
    using ne number_of_runs_le[of "bwt idx"] by (simp_all add: number_of_runs_def)
  have rdec: "u64_dec ?r = ?r - 1" using r0 n by (intro u64_dec_pos) auto
  have "?r - 1 < length (end_runs_doc doc_arr)" using r0 dok by (simp add: doc_array_ok_def)
  then show ?thesis by (simp only: rdec at_def if_True)
qed

lemma pml_query_doc_total:
  assumes ok: "pml_index_ok idx" and dok: "doc_array_ok idx doc_arr" and len: "length P \<le> INT_MAX"
  shows "\<exists>lengths doc_nums. pml_query_doc idx doc_arr P = Some (lengths, doc_nums)"
proof -
  let ?d0 = "end_runs_doc doc_arr ! (number_of_runs (bwt idx) - 1)"
  let ?st = "(u64_dec (bwt_size idx), 0::nat, ?d0)"
  have "fst ?st \<le> length (bwt idx) \<and> fst (snd ?st) + length (rev P) \<le> INT_MAX"
    using init_pos_le[OF ok] len by simp
  then obtain vs where "run (pml_body_doc idx doc_arr) (rev P) ?st = Some vs"
    using run_total[where I = "\<lambda>k st. fst st \<le> length (bwt idx) \<and> fst (snd st) + k \<le> INT_MAX"
        and step = "pml_body_doc idx doc_arr" and cs = "rev P" and st = ?st]
      pml_body_doc_total[OF ok dok]
    by auto
  then show ?thesis by (simp add: pml_query_doc_run doc_initial[OF ok dok])
qed

lemma pml_query_doc_frame:
  assumes ok: "pml_index_ok idx" and dok: "doc_array_ok idx doc_arr"
    and q: "pml_query_doc idx doc_arr P = Some (lengths, doc_nums)"
  shows "length lengths = length P \<and> length doc_nums = length P \<and>
     (\<forall>i<length P. number_of_letter (bwt idx) (P ! i) = 0 \<longrightarrow>
        lengths ! i = 0 \<and>
        doc_nums ! i =
          (if i + 1 < length P then doc_nums ! (i + 1)
           else end_runs_doc doc_arr ! (number_of_runs (bwt idx) - 1)))"
proof -
  let ?m = "length P"
  let ?d0 = "end_runs_doc doc_arr ! (number_of_runs (bwt idx) - 1)"
  let ?st = "(u64_dec (bwt_size idx), 0::nat, ?d0)"
  from q obtain vs where vs: "run (pml_body_doc idx doc_arr) (rev P) ?st = Some vs"
    and ls: "lengths = rev (map fst vs)" and ds: "doc_nums = rev (map snd vs)"
    by (auto simp: pml_query_doc_run doc_initial[OF ok dok])
  have lvs: "length vs = ?m" using run_length[OF vs] by simp
  have "\<forall>i<?m. number_of_letter (bwt idx) (P ! i) = 0 \<longrightarrow>
      lengths ! i = 0 \<and> doc_nums ! i = (if i + 1 < ?m then doc_nums ! (i + 1) else ?d0)"
  proof (intro allI impI)
    fix i assume i: "i < ?m" and absent: "number_of_letter (bwt idx) (P ! i) = 0"
    let ?k = "?m - 1 - i"
    have k: "?k < length (rev P)" using i by simp
    have ck: "rev P ! ?k = P ! i" using i by (rule rev_pattern_nth)
    from run_nth_prev[OF vs k, unfolded ck] obtain st1 st2 where
      s: "pml_body_doc idx doc_arr (P ! i) st1 = Some (st2, vs ! ?k)" and
      prev: "if ?k = 0 then st1 = ?st
             else \<exists>st0. pml_body_doc idx doc_arr (rev P ! (?k - 1)) st0 = Some (st1, vs ! (?k - 1))"
      by blast
    obtain p l d where st1: "st1 = (p, l, d)" by (cases st1)
    have v: "vs ! ?k = (0, d)" using pml_body_doc_absent[OF absent] s st1 by simp
    have li: "lengths ! i = fst (vs ! ?k)" unfolding ls using lvs i by (rule rev_map_nth)
    have di: "doc_nums ! i = snd (vs ! ?k)" unfolding ds using lvs i by (rule rev_map_nth)
    have "d = (if i + 1 < ?m then doc_nums ! (i + 1) else ?d0)"
    proof (cases "i + 1 < ?m")
      case True
      then have k0: "?k \<noteq> 0" by simp
      with prev obtain st0 where
        "pml_body_doc idx doc_arr (rev P ! (?k - 1)) st0 = Some (st1, vs ! (?k - 1))" by auto
      then have "snd (snd st1) = snd (vs ! (?k - 1))" by (rule pml_body_doc_emits)
      moreover have "doc_nums ! (i + 1) = snd (vs ! (?m - 1 - (i + 1)))"
        unfolding ds using lvs True by (rule rev_map_nth)
      moreover have "?m - 1 - (i + 1) = ?k - 1" by simp
      ultimately show ?thesis using True st1 by simp
    next
      case False
      then have "?k = 0" using i by simp
      with prev st1 have "d = ?d0" by simp
      then show ?thesis using False by simp
    qed
    then show "lengths ! i = 0 \<and> doc_nums ! i = (if i + 1 < ?m then doc_nums ! (i + 1) else ?d0)"
      using li di v by simp
  qed
  then show ?thesis using lvs ls ds by simp
qed

lemma ms_query_doc_absent:
  assumes q: "ms_query_doc midx doc_arr P = Some (pointers, doc_nums)"
    and i: "i < length P" and absent: "number_of_letter (bwt midx) (P ! i) = 0"
  shows "pointers ! i = 0 \<and>
         doc_nums ! i = start_runs_doc doc_arr ! spec_run_of_position (bwt midx) 0"
proof -
  let ?m = "length P"
  let ?k = "?m - 1 - i"
  from q obtain st vs where vs: "run (ms_body_doc midx doc_arr) (rev P) st = Some vs"
    and p: "pointers = rev (map fst vs)" and d: "doc_nums = rev (map snd vs)"
    by (auto simp: ms_query_doc_run split: bind_splits)
  have lvs: "length vs = ?m" using run_length[OF vs] by simp
  have k: "?k < length (rev P)" using i by simp
  have ck: "rev P ! ?k = P ! i" using i by (rule rev_pattern_nth)
  from run_nth_prev[OF vs k, unfolded ck] obtain st1 st2 where
    s: "ms_body_doc midx doc_arr (P ! i) st1 = Some (st2, vs ! ?k)"
    by blast
  have "pointers ! i = fst (vs ! ?k)" unfolding p using lvs i by (rule rev_map_nth)
  then have a: "pointers ! i = 0" using ms_body_doc_absent_sample[OF absent s] by simp
  have "doc_nums ! i = snd (vs ! ?k)" unfolding d using lvs i by (rule rev_map_nth)
  then have "doc_nums ! i = start_runs_doc doc_arr ! spec_run_of_position (bwt midx) 0"
    using ms_body_doc_absent[OF absent s] by simp
  with a show ?thesis by simp
qed

section \<open>The example index\<close>

lemma banana_F_nth:
  assumes "i < 256"
  shows "banana_F ! i = C_array banana_bwt (char_of i)"
proof -
  have a: "(CHR ''A'' < char_of i) = (65 < i)" using assms by (simp add: less_char_def)
  have n: "(CHR ''N'' < char_of i) = (78 < i)" using assms by (simp add: less_char_def)
  have b: "(CHR ''B'' < char_of i) = (66 < i)" using assms by (simp add: less_char_def)
  have t: "(CHR 0x01 < char_of i) = (1 < i)" using assms by (simp add: less_char_def)
  have "C_array banana_bwt (char_of i) =
      (if 65 < i then 3 else 0) + (if 78 < i then 2 else 0) + (if 66 < i then 1 else 0) + (if 1 < i then 1 else 0)"
    by (simp add: C_array_def banana_bwt_def a n b t)
  moreover have "banana_F ! i =
      (if 65 < i then 3 else 0) + (if 78 < i then 2 else 0) + (if 66 < i then 1 else 0) + (if 1 < i then 1 else 0)"
    using assms by (auto simp: banana_F_def nth_append nth_Cons')
  ultimately show ?thesis by simp
qed

lemma banana_F_ok: "F_ok banana"
proof -
  have "banana_F = map (\<lambda>k. C_array banana_bwt (char_of k)) [0..<256]"
  proof (rule nth_equalityI)
    show "length banana_F = length (map (\<lambda>k. C_array banana_bwt (char_of k)) [0..<256])"
      by (simp add: banana_F_def)
  next
    fix i assume "i < length banana_F"
    then have "i < 256" by (simp add: banana_F_def)
    then show "banana_F ! i = map (\<lambda>k. C_array banana_bwt (char_of k)) [0..<256] ! i"
      by (simp add: banana_F_nth)
  qed
  then show ?thesis by (simp add: F_ok_def banana_def)
qed

lemma banana_fields:
  "bwt banana = banana_bwt" "F banana = banana_F" "thresholds banana = [0, 0, 0, 0, 4]"
  "samples_last banana = [5, 2, 0, 6, 1]" "samples_start banana = [5, 4, 0, 6, 3]" "r banana = 5"
  by (simp_all add: banana_def)

lemmas banana_eval = banana_fields same_char_def char_value_def number_of_letter_def rank_def select_def occurrences_def
  run_of_position_def run_heads_def at_def size_bwt_def bwt_size_def banana_bwt_def banana_F_def
  u64_def u64_dec_def INT_MAX_def nth_append upt_rec_numeral

lemma banana_LF:
  "LF banana 6 CHR ''A'' = Some 3"
  "LF banana 2 CHR ''N'' = Some 6"
  by (simp_all add: LF_def banana_eval)

lemma banana_pml_update:
  "pml_update banana CHR ''A'' (6, 0) = Some (6, Suc 0)"
  "pml_update banana CHR ''N'' (3, Suc 0) = Some (2, 0)"
  by (simp_all add: pml_update_def banana_eval)


lemma pml_query_run:
  "pml_query idx P = map_option rev (pml_run idx (rev P) (u64_dec (bwt_size idx), 0))"
proof -
  have "pml_for idx P (length P) 0 (u64_dec (bwt_size idx), 0) (replicate (length P) 0)
      = map_option (\<lambda>out. rev out @ drop (length P - 0) (replicate (length P) 0))
          (pml_run idx (drop 0 (rev P)) (u64_dec (bwt_size idx), 0))"
    by (rule pml_for_run) simp_all
  then show ?thesis by (simp add: pml_query_def cong: option.map_cong)
qed

lemma banana_ok: "pml_index_ok banana"
proof -
  have "first_thresholds_zero banana"
    by (simp add: first_thresholds_zero_def banana_eval)
  moreover have "length (thresholds banana) = number_of_runs (bwt banana)"
    by (simp add: number_of_runs_def banana_eval)
  ultimately show ?thesis
    using banana_F_ok by (simp add: pml_index_ok_def banana_fields banana_bwt_def)
qed

lemma banana_init: "u64_dec (bwt_size banana) = 6"
  by (simp add: banana_eval)

lemma banana_pml_ANA: "pml_query banana ''ANA'' = Some [1, 0, 1]"
  by (simp add: pml_query_run banana_init banana_LF banana_pml_update)

lemma banana_ms_ok: "ms_index_ok banana"
  using banana_ok by (simp add: ms_index_ok_def banana_eval number_of_runs_def)

lemma banana_last_run_sample: "get_last_run_sample banana = Some 1"
  by (simp add: get_last_run_sample_def banana_eval)

lemma banana_LF2:
  "LF banana 6 CHR ''C'' = Some 5"
  "LF banana 5 CHR ''A'' = Some 2"
  "LF banana 3 CHR ''B'' = Some 4"
  "LF banana 4 CHR 0x01 = Some 0"
  by (simp_all add: LF_def banana_eval)

lemma banana_ms_update:
  "ms_update banana CHR ''A'' (6, Suc 0) = Some (6, 0)"
  "ms_update banana CHR ''N'' (3, 0) = Some (2, 2)"
  "ms_update banana CHR ''A'' (6, 2) = Some (6, Suc 0)"
  "ms_update banana CHR ''C'' (6, Suc 0) = Some (6, 0)"
  "ms_update banana CHR ''A'' (5, 0) = Some (5, 18446744073709551615)"
  "ms_update banana CHR ''B'' (6, Suc 0) = Some (3, 0)"
  "ms_update banana CHR 0x01 (4, 0) = Some (4, 18446744073709551615)"
  by (simp_all add: ms_update_def banana_eval)

lemma banana_ms_ANA: "ms_query banana ''ANA'' = Some [1, 2, 0]"
  by (simp add: ms_query_run banana_last_run_sample banana_init ms_body_def banana_LF banana_ms_update)

lemma banana_doc_ok: "doc_array_ok banana banana_doc"
  by (simp add: doc_array_ok_def banana_doc_def number_of_runs_def banana_eval)

lemma banana_doc_init:
  "at (end_runs_doc banana_doc) (u64_dec (number_of_runs (bwt banana))) = Some 1"
  by (simp add: banana_doc_def number_of_runs_def banana_eval)

lemma banana_LF3: "LF banana 3 CHR ''C'' = Some 5"
  by (simp add: LF_def banana_eval)

lemma banana_update_doc:
  "pml_update_doc banana banana_doc CHR ''A'' (6, 0, Suc 0) = Some (6, Suc 0, Suc 0)"
  "pml_update_doc banana banana_doc CHR ''C'' (3, Suc 0, Suc 0) = Some (3, 0, Suc 0)"
  "ms_update_doc banana banana_doc CHR ''A'' (6, Suc 0, Suc 0) = Some (6, 0, Suc 0)"
  "ms_update_doc banana banana_doc CHR ''C'' (3, 0, Suc 0) = Some (3, 0, 2)"
  by (simp_all add: pml_update_doc_def ms_update_doc_def banana_doc_def banana_eval)

lemma banana_pml_doc_CA: "pml_query_doc banana banana_doc ''CA'' = Some ([0, 1], [1, 1])"
  by (simp add: pml_query_doc_run banana_doc_init banana_init pml_body_doc_def banana_LF banana_LF3
      banana_update_doc)

lemma banana_ms_doc_CA: "ms_query_doc banana banana_doc ''CA'' = Some ([0, 0], [2, 1])"
  by (simp add: ms_query_doc_run banana_last_run_sample banana_doc_init banana_init ms_body_doc_def
      banana_LF banana_LF3 banana_update_doc)

lemma banana_ms_TB:
  "ms_query banana [CHR 0x01, CHR ''B''] = Some [18446744073709551615, 0]"
  by (simp add: ms_query_run banana_last_run_sample banana_init ms_body_def banana_LF2 banana_ms_update)

section \<open>The forward sweep and the pseudocode\<close>

lemma ms_while_spec:
  assumes "pos + m < 18446744073709551616"
    and "0 < i \<Longrightarrow> pointers ! (i - 1) + 1 < 18446744073709551616"
  shows "i + l \<le> m \<Longrightarrow> ms_while read m ra pointers i pos l
           = spec_extend read m (\<lambda>k. ra ! k) (length ra) pointers i pos l"
proof (induction "m - (i + l)" arbitrary: l)
  case 0
  then have "\<not> i + l < m" by simp
  then show ?case
    by (subst ms_while.simps, subst spec_extend.simps) simp
next
  case (Suc k)
  then have lt: "i + l < m" by simp
  have w1: "u64 (pos + l) = pos + l" using assms(1) lt by (intro u64_id) simp
  have w2: "0 < i \<Longrightarrow> u64 (pointers ! (i - 1) + 1) = pointers ! (i - 1) + 1"
    using assms(2) by (intro u64_id) simp
  have g: "(i < 1 \<or> pos \<noteq> u64 (pointers ! (i - 1) + 1)) = (i = 0 \<or> pos \<noteq> pointers ! (i - 1) + 1)"
    using w2 by (cases "i = 0") auto
  have IH: "ms_while read m ra pointers i pos (l + 1)
           = spec_extend read m (\<lambda>k. ra ! k) (length ra) pointers i pos (l + 1)"
    using Suc(1)[of "l + 1"] Suc(2) lt by simp
  show ?case
    by (subst ms_while.simps, subst spec_extend.simps) (simp only: w1 g IH)
qed

lemma spec_extend_bound:
  "i + l \<le> m \<Longrightarrow> i + spec_extend P m char_at n pointers i p l \<le> m"
proof (induction "m - (i + l)" arbitrary: l)
  case 0
  then show ?case by (subst spec_extend.simps) simp
next
  case (Suc k)
  then have "i + (l + 1) \<le> m" "k = m - (i + (l + 1))" by simp_all
  from Suc(1)[OF this(2) this(1)] Suc(3) show ?case
    by (subst spec_extend.simps) simp
qed

lemma ms_sweep_spec:
  assumes lp: "length pointers = m"
    and small: "\<forall>p \<in> set pointers. p + m < 18446744073709551616"
  shows "i \<le> m \<Longrightarrow> i + l \<le> m \<Longrightarrow> length lengths = m \<Longrightarrow>
         ms_sweep read m ra pointers i l lengths
           = take i lengths @ spec_scan read m (\<lambda>k. ra ! k) (length ra) pointers i l"
proof (induction "m - i" arbitrary: i l lengths)
  case 0
  then have "i = m" by simp
  then show ?case using 0 lp
    by (subst ms_sweep.simps, subst spec_scan.simps) simp
next
  case (Suc k)
  then have i: "i < m" by simp
  let ?pos = "pointers ! i"
  let ?l = "spec_extend read m (\<lambda>k. ra ! k) (length ra) pointers i ?pos l"
  let ?l' = "if ?l = 0 then 0 else ?l - 1"
  have pin: "?pos \<in> set pointers" using i lp by simp
  have p1: "?pos + m < 18446744073709551616" using small pin by blast
  have p2: "0 < i \<Longrightarrow> pointers ! (i - 1) + 1 < 18446744073709551616"
  proof -
    assume "0 < i"
    then have "pointers ! (i - 1) \<in> set pointers" using i lp by simp
    with small have "pointers ! (i - 1) + m < 18446744073709551616" by blast
    with i show ?thesis by simp
  qed
  have w: "ms_while read m ra pointers i ?pos l = ?l"
    using ms_while_spec[OF p1 p2] Suc(4) by simp
  have b: "i + ?l \<le> m" using Suc(4) by (rule spec_extend_bound)
  have b': "Suc i + ?l' \<le> m" using b i by simp
  have carry: "nat (max (int ?l - 1) 0) = ?l'" by (cases "?l = 0") (simp_all add: nat_diff_distrib')
  have IH: "ms_sweep read m ra pointers (Suc i) ?l' (lengths[i := ?l])
      = take (Suc i) (lengths[i := ?l]) @ spec_scan read m (\<lambda>k. ra ! k) (length ra) pointers (Suc i) ?l'"
    using Suc(1)[of "Suc i" ?l' "lengths[i := ?l]"] Suc(2) i b' Suc(5) by simp
  have tk: "take (Suc i) (lengths[i := ?l]) = take i lengths @ [?l]"
    using i Suc(5) by (simp add: take_Suc_conv_app_nth)
  have lhs: "ms_sweep read m ra pointers i l lengths
      = ms_sweep read m ra pointers (Suc i) ?l' (lengths[i := ?l])"
    using i lp by (subst ms_sweep.simps) (simp add: w Let_def)
  have rhs: "spec_scan read m (\<lambda>k. ra ! k) (length ra) pointers i l
      = ?l # spec_scan read m (\<lambda>k. ra ! k) (length ra) pointers (Suc i) ?l'"
    using i by (subst spec_scan.simps) (simp only: Let_def carry if_True)
  show ?case by (simp only: lhs IH tk rhs append_Cons append_Nil append_assoc)
qed

lemma ms_query_length: "ms_query idx P = Some pointers \<Longrightarrow> length pointers = length P"
  by (auto simp: ms_query_run split: bind_splits dest: run_length)

lemma spec_scan_step:
  assumes "i < m" "spec_extend P m ca n ptrs i (ptrs ! i) l = l'"
  shows "spec_scan P m ca n ptrs i l = l' # spec_scan P m ca n ptrs (Suc i) (l' - 1)"
proof -
  have "nat (max (int l' - 1) 0) = l' - 1" by (cases "l' = 0") (simp_all add: nat_diff_distrib')
  then show ?thesis using assms by (subst spec_scan.simps) (simp add: Let_def)
qed

lemma spec_scan_end: "\<not> i < m \<Longrightarrow> spec_scan P m ca n ptrs i l = []"
  by (subst spec_scan.simps) simp

text \<open>
  Where every pointer \<open>p\<close> satisfies \<open>p + m < 2^64\<close>, no sum of the sweep wraps and the sweep
  computes what the pseudocode of section 4.5 computes.
\<close>

lemma ms_sweep_follows_pseudocode:
  assumes "ms_query idx read = Some pointers"
    and "\<forall>p \<in> set pointers. p + length read < 18446744073709551616"
  shows "matching_statistics idx ra read
           = Some (spec_lengths read (\<lambda>k. ra ! k) (length ra) pointers, pointers)"
proof -
  have lp: "length pointers = length read" using assms(1) by (rule ms_query_length)
  have "ms_sweep read (length read) ra pointers 0 0 (replicate (length read) 0)
      = take 0 (replicate (length read) 0)
          @ spec_scan read (length read) (\<lambda>k. ra ! k) (length ra) pointers 0 0"
    using lp assms(2) by (intro ms_sweep_spec) simp_all
  then show ?thesis using assms(1) by (simp add: matching_statistics_def spec_lengths_def)
qed

section \<open>The terminator position recorded by the construction\<close>

lemma count_runs_terminator:
  "snd (count_runs TERMINATOR heads lens i (Fv, tp)) = last_terminator_run TERMINATOR heads i tp"
  by (induction heads arbitrary: lens i Fv tp) (simp_all add: Let_def)

lemma build_F_runs_terminator:
  "snd (build_F_runs TERMINATOR heads lens tp0) = last_terminator_run TERMINATOR heads 0 tp0"
proof -
  obtain Fv tp where c: "count_runs TERMINATOR heads lens 0 (replicate 256 0, tp0) = (Fv, tp)"
    by (cases "count_runs TERMINATOR heads lens 0 (replicate 256 0, tp0)")
  then have "tp = last_terminator_run TERMINATOR heads 0 tp0"
    using count_runs_terminator[of TERMINATOR heads lens 0 "replicate 256 0" tp0] by simp
  then show ?thesis by (simp add: build_F_runs_def c)
qed

lemma banana_sweep_ANA:
  "spec_lengths ''ANA'' (\<lambda>k. banana_text ! k) (length banana_text) [1, 2, 0] = [3, 2, 1]"
proof -
  let ?scan = "spec_scan ''ANA'' 3 (\<lambda>k. banana_text ! k) 7 [1, 2, 0]"
  let ?ext = "spec_extend ''ANA'' 3 (\<lambda>k. banana_text ! k) 7 [1, 2, 0]"
  have e0: "?ext 0 ([1, 2, 0] ! 0) 0 = 3"
    by (simp add: spec_extend.simps banana_text_def)
  have e1: "?ext 1 ([1, 2, 0] ! 1) 2 = 2"
    by (simp add: spec_extend.simps banana_text_def)
  have e2: "?ext 2 ([1, 2, 0] ! 2) 1 = 1"
    by (simp add: spec_extend.simps banana_text_def)
  have s3: "?scan 3 0 = []" by (rule spec_scan_end) simp
  have s2: "?scan 2 1 = [1]" using spec_scan_step[of 2 3, OF _ e2] s3 by (simp add: numeral_3_eq_3)
  have s1: "?scan 1 2 = [2, 1]" using spec_scan_step[of 1 3, OF _ e1] s2 by (simp add: numeral_2_eq_2)
  have s0: "?scan 0 0 = [3, 2, 1]" using spec_scan_step[of 0 3, OF _ e0] s1 by simp
  have l1: "length ''ANA'' = 3" by simp
  have l2: "length banana_text = 7" by (simp add: banana_text_def)
  show ?thesis by (simp only: spec_lengths_def l1 l2 s0)
qed

lemma banana_sweep_TB:
  "spec_lengths [CHR 0x01, CHR ''B''] (\<lambda>k. banana_text ! k) (length banana_text)
     [18446744073709551615, 0] = [0, 1]"
proof -
  let ?scan = "spec_scan [CHR 0x01, CHR ''B''] 2 (\<lambda>k. banana_text ! k) 7 [18446744073709551615, 0]"
  let ?ext = "spec_extend [CHR 0x01, CHR ''B''] 2 (\<lambda>k. banana_text ! k) 7 [18446744073709551615, 0]"
  have e0: "?ext 0 ([18446744073709551615, 0] ! 0) 0 = 0"
    by (simp add: spec_extend.simps banana_text_def)
  have e1: "?ext 1 ([18446744073709551615, 0] ! 1) 0 = 1"
    by (simp add: spec_extend.simps banana_text_def)
  have s2: "?scan 2 0 = []" by (rule spec_scan_end) simp
  have s1: "?scan 1 0 = [1]" using spec_scan_step[of 1 2, OF _ e1] s2 by (simp add: numeral_2_eq_2)
  have s0: "?scan 0 0 = [0, 1]" using spec_scan_step[of 0 2, OF _ e0] s1 by simp
  have l1: "length [CHR 0x01, CHR ''B''] = 2" by simp
  have l2: "length banana_text = 7" by (simp add: banana_text_def)
  show ?thesis by (simp only: spec_lengths_def l1 l2 s0)
qed

lemma banana_matching_statistics_ANA:
  "ms_query banana ''ANA'' = Some [1, 2, 0] \<and>
   matching_statistics banana banana_text ''ANA'' = Some ([3, 2, 1], [1, 2, 0])"
proof -
  have small: "\<forall>p \<in> set [1, 2, 0::nat]. p + length ''ANA'' < 18446744073709551616" by simp
  have "matching_statistics banana banana_text ''ANA''
      = Some (spec_lengths ''ANA'' (\<lambda>k. banana_text ! k) (length banana_text) [1, 2, 0], [1, 2, 0])"
    using banana_ms_ANA small by (rule ms_sweep_follows_pseudocode)
  then show ?thesis
    by (simp only: banana_sweep_ANA banana_ms_ANA simp_thms)
qed

lemma banana_sweep_terminator:
  "matching_statistics banana banana_text [CHR 0x01, CHR ''B'']
     = Some ([0, 0], [18446744073709551615, 0]) \<and>
   spec_lengths [CHR 0x01, CHR ''B''] (\<lambda>k. banana_text ! k) (length banana_text)
     [18446744073709551615, 0] = [0, 1]"
proof
  have w0: "ms_while [CHR 0x01, CHR ''B''] 2 banana_text [18446744073709551615, 0] 0
              18446744073709551615 0 = 0"
    by (subst ms_while.simps) (simp add: u64_def banana_text_def)
  have w1: "ms_while [CHR 0x01, CHR ''B''] 2 banana_text [18446744073709551615, 0] (Suc 0) 0 0 = 0"
    by (subst ms_while.simps) (simp add: u64_def banana_text_def)
  have "ms_sweep [CHR 0x01, CHR ''B''] 2 banana_text [18446744073709551615, 0] 0 0 [0, 0] = [0, 0]"
    by (simp add: ms_sweep.simps w0 w1 Let_def)
  then show "matching_statistics banana banana_text [CHR 0x01, CHR ''B'']
     = Some ([0, 0], [18446744073709551615, 0])"
    by (simp add: matching_statistics_def banana_ms_TB numeral_2_eq_2)
next
  show "spec_lengths [CHR 0x01, CHR ''B''] (\<lambda>k. banana_text ! k) (length banana_text)
     [18446744073709551615, 0] = [0, 1]"
    by (rule banana_sweep_TB)
qed

section \<open>The result of loading a sample file\<close>

lemma sample_value_drop: "sample_value (drop 10 bytes) n k = sample_value bytes n (Suc k)"
  by (simp add: sample_value_def add.commute)

lemma read_pairs_result:
  "length bytes div 10 = p \<Longrightarrow> length bytes mod 5 = 0 \<Longrightarrow> i + p \<le> length samples \<Longrightarrow>
   read_pairs bytes n log_n i samples =
     (if \<forall>k<p. bitsize (sample_value bytes n k) \<le> log_n
      then Inr (take i samples @ map (sample_value bytes n) [0..<p] @ drop (i + p) samples)
      else Inl Assertion_failed)"
proof (induction p arbitrary: bytes i samples)
  case 0
  then have "length bytes < 10" by (simp add: div_eq_0_iff)
  then have c: "(SSABYTES \<le> length bytes \<and> SSABYTES \<le> length (drop SSABYTES bytes)) = False"
    by (auto simp: SSABYTES_def)
  show ?case by (subst read_pairs.simps, simp only: c if_False, simp)
next
  case (Suc p)
  then have len: "10 \<le> length bytes" by (metis Suc_neq_Zero div_less not_le)
  have cond: "(SSABYTES \<le> length bytes \<and> SSABYTES \<le> length (drop SSABYTES bytes)) = True"
    using len by (simp add: SSABYTES_def)
  let ?v = "sample_value bytes n 0"
  have v: "(let right = le_value (take SSABYTES (drop SSABYTES bytes))
            in if right \<noteq> 0 then right - 1 else u64_dec n) = ?v"
    by (simp add: sample_value_def SSABYTES_def Let_def)
  have i: "i < length samples" using Suc.prems(3) by simp
  have d: "length (drop 10 bytes) div 10 = p" "length (drop 10 bytes) mod 5 = 0"
  proof -
    show "length (drop 10 bytes) div 10 = p" using Suc.prems(1) len by simp
    show "length (drop 10 bytes) mod 5 = 0" using Suc.prems(2) len by (simp, presburger?)
  qed
  have unfold: "read_pairs bytes n log_n i samples =
      (if \<not> bitsize ?v \<le> log_n then Inl Assertion_failed
       else read_pairs (drop 10 bytes) n log_n (Suc i) (samples[i := ?v]))"
    using i by (subst read_pairs.simps, simp only: cond if_True)
      (simp add: Let_def SSABYTES_def sample_value_def)
  show ?case
  proof (cases "bitsize ?v \<le> log_n")
    case False
    then have "\<not> (\<forall>k<Suc p. bitsize (sample_value bytes n k) \<le> log_n)" by auto
    then show ?thesis using False unfold by simp
  next
    case True
    have IH: "read_pairs (drop 10 bytes) n log_n (Suc i) (samples[i := ?v]) =
        (if \<forall>k<p. bitsize (sample_value (drop 10 bytes) n k) \<le> log_n
         then Inr (take (Suc i) (samples[i := ?v]) @ map (sample_value (drop 10 bytes) n) [0..<p]
                    @ drop (Suc i + p) (samples[i := ?v]))
         else Inl Assertion_failed)"
      using Suc.IH[OF d, of "Suc i" "samples[i := ?v]"] Suc.prems(3) by simp
    have all: "(\<forall>k<Suc p. bitsize (sample_value bytes n k) \<le> log_n)
        = (\<forall>k<p. bitsize (sample_value (drop 10 bytes) n k) \<le> log_n)"
      using True by (auto simp: sample_value_drop less_Suc_eq_0_disj)
    have tk: "take (Suc i) (samples[i := ?v]) = take i samples @ [?v]"
      using i by (simp add: take_Suc_conv_app_nth)
    have mp: "map (sample_value bytes n) [0..<Suc p]
        = ?v # map (sample_value (drop 10 bytes) n) [0..<p]"
      by (simp add: sample_value_drop upt_rec[of 0 "Suc p"] map_Suc_upt[symmetric] del: upt_Suc)
    have dr: "drop (Suc i + p) (samples[i := ?v]) = drop (i + Suc p) samples"
      by simp
    show ?thesis
      unfolding unfold IH all tk mp dr using True by simp
  qed
qed

lemma read_samples_Contents:
  "read_samples (Contents bytes) r' n =
     (if length bytes mod 5 \<noteq> 0 then Inl Invalid_file
      else if length bytes div 10 \<noteq> r' then Inl Assertion_failed
      else read_pairs bytes n (bitsize n) 0 (replicate r' 0))"
  by (simp add: read_samples_def SSABYTES_def Let_def)

lemma read_samples_exact:
  assumes "length bytes mod 5 = 0" "length bytes div 10 = r'"
  shows "read_samples (Contents bytes) r' n =
     (if \<forall>k<r'. bitsize (sample_value bytes n k) \<le> bitsize n
      then Inr (map (sample_value bytes n) [0..<r'])
      else Inl Assertion_failed)"
proof -
  have "read_pairs bytes n (bitsize n) 0 (replicate r' 0) =
      (if \<forall>k<r'. bitsize (sample_value bytes n k) \<le> bitsize n
       then Inr (take 0 (replicate r' 0) @ map (sample_value bytes n) [0..<r']
                  @ drop (0 + r') (replicate r' 0))
       else Inl Assertion_failed)"
    using assms by (intro read_pairs_result) simp_all
  moreover have "read_samples (Contents bytes) r' n = read_pairs bytes n (bitsize n) 0 (replicate r' 0)"
    using assms by (simp add: read_samples_Contents)
  ultimately show ?thesis by simp
qed

lemma bitsize_values:
  "bitsize 7 = 3" "bitsize 5 = 3" "bitsize 6 = 3" "bitsize 8 = 4"
  by (simp_all add: bitsize_def bit_count.simps)

lemma two_samples_values:
  "sample_value two_samples 7 0 = 5" "sample_value two_samples 7 (Suc 0) = 6"
  by (simp_all add: sample_value_def two_samples_def u64_dec_def u64_def)

subsection \<open>Serialization\<close>

lemma length_le_bytes: "length (le_bytes k x) = k"
  by (induction k arbitrary: x) simp_all

lemma le_value_le_bytes: "le_value (le_bytes k x) = x mod 256 ^ k"
proof (induction k arbitrary: x)
  case 0
  show ?case by simp
next
  case (Suc k)
  have "of_char (char_of (x mod 256) :: char) = x mod 256" by simp
  then have "le_value (le_bytes (Suc k) x) = x mod 256 + 256 * ((x div 256) mod 256 ^ k)"
    using Suc by simp
  also have "\<dots> = x mod 256 ^ Suc k"
    by (simp add: mod_mult2_eq)
  finally show ?case .
qed

lemma read_write_word:
  "x < 18446744073709551616 \<Longrightarrow> read_word (write_word x @ s) = Some (x, s)"
proof -
  assume x: "x < 18446744073709551616"
  have "le_value (le_bytes 8 x) = x mod 256 ^ 8" by (rule le_value_le_bytes)
  then have "le_value (le_bytes 8 x) = x" using x by simp
  then show ?thesis
    by (simp add: read_word_def write_word_def length_le_bytes)
qed

lemma ms_update_cong:
  assumes "bwt a = bwt b" "thresholds a = thresholds b"
    "samples_start a = samples_start b" "samples_last a = samples_last b"
  shows "ms_update a = ms_update b"
  by (intro ext) (simp only: ms_update_def assms)

lemma LF_cong:
  assumes "bwt a = bwt b" "F a = F b"
  shows "LF a = LF b"
  by (intro ext) (simp only: LF_def assms)

lemma ms_query_cong:
  assumes "bwt a = bwt b" "F a = F b" "r a = r b" "thresholds a = thresholds b"
    "samples_start a = samples_start b" "samples_last a = samples_last b"
  shows "ms_query a P = ms_query b P"
proof -
  have "ms_body a = ms_body b"
    by (intro ext)
       (simp only: ms_body_def ms_update_cong[OF assms(1,4,5,6)] LF_cong[OF assms(1,2)])
  then show ?thesis
    by (simp only: ms_query_run get_last_run_sample_def bwt_size_def assms)
qed

lemma ms_update_doc_cong:
  assumes "bwt a = bwt b" "thresholds a = thresholds b"
    "samples_start a = samples_start b" "samples_last a = samples_last b"
  shows "ms_update_doc a = ms_update_doc b"
  by (intro ext) (simp only: ms_update_doc_def assms)

lemma ms_query_doc_cong:
  assumes "bwt a = bwt b" "F a = F b" "r a = r b" "thresholds a = thresholds b"
    "samples_start a = samples_start b" "samples_last a = samples_last b"
  shows "ms_query_doc a doc_arr P = ms_query_doc b doc_arr P"
proof -
  have "ms_body_doc a = ms_body_doc b"
    by (intro ext)
       (simp only: ms_body_doc_def ms_update_doc_cong[OF assms(1,4,5,6)] LF_cong[OF assms(1,2)])
  then show ?thesis
    by (simp only: ms_query_doc_run get_last_run_sample_def bwt_size_def assms)
qed

lemma load_serialize:
  assumes rt: "members_round_trip c idx" and tp: "terminator_position idx < 18446744073709551616"
  shows "load c idx0 (serialize c idx @ s) =
     Some (idx0\<lparr> terminator_position := terminator_position idx, F := F idx, bwt := bwt idx,
                 r := number_of_runs (bwt idx), samples_last := samples_last idx,
                 thresholds := thresholds idx, samples_start := samples_start idx \<rparr>, s)"
proof -
  from rt have
    f: "\<And>s. get_F c (put_F c (F idx) @ s) = Some (F idx, s)" and
    b: "\<And>s. get_bwt c (put_bwt c (bwt idx) @ s) = Some (bwt idx, s)" and
    sl: "\<And>s. get_int_vector c (put_int_vector c (samples_last idx) @ s) = Some (samples_last idx, s)" and
    th: "\<And>s. get_thresholds c (bwt idx) (put_thresholds c (bwt idx) (thresholds idx) @ s)
            = Some (thresholds idx, s)" and
    ss: "\<And>s. get_int_vector c (put_int_vector c (samples_start idx) @ s) = Some (samples_start idx, s)"
    by (simp_all add: members_round_trip_def)
  show ?thesis
    by (simp add: load_def serialize_def read_write_word[OF tp] f b sl th ss)
qed

lemma get_words_n_put:
  "\<forall>x \<in> set xs. x < 18446744073709551616 \<Longrightarrow>
   get_words_n (length xs) (concat (map write_word xs) @ s) = Some (xs, s)"
  by (induction xs) (simp_all add: read_write_word)

lemma get_put_words:
  assumes "\<forall>x \<in> set xs. x < 18446744073709551616" "length xs < 18446744073709551616"
  shows "get_words (put_words xs @ s) = Some (xs, s)"
  using assms by (simp add: get_words_def put_words_def read_write_word get_words_n_put)

lemma get_put_bytes:
  assumes "length b < 18446744073709551616"
  shows "get_bytes (put_bytes b @ s) = Some (b, s)"
  using assms by (simp add: get_bytes_def put_bytes_def read_write_word)

lemma plain_round_trip:
  assumes "\<forall>x \<in> set (F idx). x < 18446744073709551616" "length (F idx) < 18446744073709551616"
    "length (bwt idx) < 18446744073709551616"
    "\<forall>x \<in> set (samples_last idx). x < 18446744073709551616"
    "length (samples_last idx) < 18446744073709551616"
    "\<forall>x \<in> set (thresholds idx). x < 18446744073709551616"
    "length (thresholds idx) < 18446744073709551616"
    "\<forall>x \<in> set (samples_start idx). x < 18446744073709551616"
    "length (samples_start idx) < 18446744073709551616"
  shows "members_round_trip plain_codecs idx"
  by (simp add: members_round_trip_def plain_codecs_def get_put_bytes[OF assms(3)]
      get_put_words[OF assms(1,2)] get_put_words[OF assms(4,5)] get_put_words[OF assms(6,7)]
      get_put_words[OF assms(8,9)])

lemma banana_round_trip: "members_round_trip plain_codecs banana"
proof (rule plain_round_trip)
  show "\<forall>x \<in> set (F banana). x < 18446744073709551616"
    by (auto simp: banana_fields banana_F_def)
  show "length (F banana) < 18446744073709551616" by (simp add: banana_fields banana_F_def)
  show "length (bwt banana) < 18446744073709551616" by (simp add: banana_fields banana_bwt_def)
qed (simp_all add: banana_fields)

subsection \<open>The BWT and the LF mapping\<close>

lemma banana_rotations: "rotations banana_text =
  [''BANANA'' @ [CHR 0x01], ''ANANA'' @ [CHR 0x01] @ ''B'', ''NANA'' @ [CHR 0x01] @ ''BA'',
   ''ANA'' @ [CHR 0x01] @ ''BAN'', ''NA'' @ [CHR 0x01] @ ''BANA'', ''A'' @ [CHR 0x01] @ ''BANAN'',
   [CHR 0x01] @ ''BANANA'']"
  by (simp add: rotations_def banana_text_def upt_rec rotate_def rotate1_def eval_nat_numeral)

lemma banana_BWT: "BWT banana_text = banana_bwt"
  by (simp add: BWT_def bwt_rows_def banana_rotations banana_bwt_def)

lemma banana_lm: "map (longest_match banana_text ''ANA'') [0, 1, 2] = [3, 2, 1]"
  by (simp add: longest_match_def occurs_def banana_text_def upt_rec)

lemma banana_valid: "valid_text (CHR 0x01) banana_text"
  by (simp add: valid_text_def banana_text_def)

lemma length_rotations [simp]: "length (rotations T) = length T"
  by (simp add: rotations_def)

lemma set_rotations: "set (rotations T) = (\<lambda>k. rotate k T) ` {..<length T}"
  by (auto simp: rotations_def)

lemma rotations_length: "ro \<in> set (rotations T) \<Longrightarrow> length ro = length T"
  by (auto simp: rotations_def)

lemma rotate_in_rotations: "T \<noteq> [] \<Longrightarrow> rotate k T \<in> set (rotations T)"
proof -
  assume T: "T \<noteq> []"
  have "rotate k T = rotate (k mod length T) T" by (rule rotate_conv_mod)
  moreover have "k mod length T < length T" using T by simp
  ultimately show ?thesis unfolding set_rotations by blast
qed

lemma rotate_right_rotate: "ro \<noteq> [] \<Longrightarrow> rotate_right ro = rotate (length ro - 1) ro"
proof -
  assume ro: "ro \<noteq> []"
  then have "ro = butlast ro @ [last ro]" by simp
  then have "rotate (length (butlast ro)) ro = [last ro] @ butlast ro"
    by (metis rotate_append)
  then show ?thesis by (simp add: rotate_right_def)
qed

lemma rotate_right_in_rotations:
  assumes "ro \<in> set (rotations T)" shows "rotate_right ro \<in> set (rotations T)"
proof -
  from assms obtain k where k: "k < length T" "ro = rotate k T" by (auto simp: set_rotations)
  then have T: "T \<noteq> []" by auto
  then have "ro \<noteq> []" using k by simp
  then have "rotate_right ro = rotate (length ro - 1) (rotate k T)"
    using k by (simp add: rotate_right_rotate)
  also have "\<dots> = rotate (length ro - 1 + k) T" by (simp add: rotate_rotate)
  finally show ?thesis using rotate_in_rotations[OF T] by simp
qed

lemma rotate1_in_rotations:
  assumes "ro \<in> set (rotations T)" shows "rotate1 ro \<in> set (rotations T)"
proof -
  from assms obtain k where k: "k < length T" "ro = rotate k T" by (auto simp: set_rotations)
  then have T: "T \<noteq> []" by auto
  show ?thesis using rotate_in_rotations[OF T, of "Suc k"] k by simp
qed

lemma rotate_right_rotate1: "ro \<noteq> [] \<Longrightarrow> rotate_right (rotate1 ro) = ro"
  by (cases ro) (simp_all add: rotate_right_def)

lemma last_rotate1: "ro \<noteq> [] \<Longrightarrow> last (rotate1 ro) = hd ro"
  by (cases ro) simp_all

lemma rotate_right_inj: "x \<noteq> [] \<Longrightarrow> y \<noteq> [] \<Longrightarrow> rotate_right x = rotate_right y \<Longrightarrow> x = y"
  by (metis append_butlast_last_id list.inject rotate_right_def)

lemma le_append_same:
  fixes a b :: "('a::linorder) list"
  shows "length a = length b \<Longrightarrow> a @ u \<le> b @ u \<Longrightarrow> a \<le> b"
  by (induction a b rule: list_induct2) auto

lemma rotate_right_mono:
  fixes x y :: "('a::linorder) list"
  assumes "x \<noteq> []" "y \<noteq> []" "length x = length y" "last x = last y" "x \<le> y"
  shows "rotate_right x \<le> rotate_right y"
proof -
  have "x = butlast x @ [last x]" "y = butlast y @ [last x]"
    using assms(1,2,4) by (metis append_butlast_last_id)+
  then have "butlast x @ [last x] \<le> butlast y @ [last x]" using assms(5) by metis
  moreover have "length (butlast x) = length (butlast y)" using assms by simp
  ultimately have "butlast x \<le> butlast y" by (rule le_append_same[rotated])
  then show ?thesis using assms by (simp add: rotate_right_def)
qed

lemma filter_nth_count:
  assumes "pos < length xs" "P (xs ! pos)"
  shows "length (filter P (take pos xs)) < length (filter P xs) \<and>
         filter P xs ! length (filter P (take pos xs)) = xs ! pos"
proof -
  have "xs = take pos xs @ xs ! pos # drop (Suc pos) xs"
    using assms(1) by (simp add: id_take_nth_drop)
  then have "filter P xs = filter P (take pos xs) @ xs ! pos # filter P (drop (Suc pos) xs)"
    using assms(2) by (metis filter.simps(2) filter_append)
  then show ?thesis by (simp add: nth_append)
qed

lemma sorted_three_way:
  fixes f :: "'a \<Rightarrow> 'b::linorder"
  shows "sorted (map f xs) \<Longrightarrow>
    xs = filter (\<lambda>x. f x < c) xs @ filter (\<lambda>x. f x = c) xs @ filter (\<lambda>x. c < f x) xs"
proof (induction xs)
  case Nil
  show ?case by simp
next
  case (Cons x xs)
  then have IH: "xs = filter (\<lambda>x. f x < c) xs @ filter (\<lambda>x. f x = c) xs @ filter (\<lambda>x. c < f x) xs"
    and le: "\<forall>y \<in> set xs. f x \<le> f y" by simp_all
  consider "f x < c" | "f x = c" | "c < f x" by (rule linorder_cases)
  then show ?case
  proof cases
    case 1
    then show ?thesis using IH by auto
  next
    case 2
    then have "filter (\<lambda>x. f x < c) xs = []" using le by (auto simp: filter_empty_conv)
    then show ?thesis using 2 IH by simp
  next
    case 3
    then have "filter (\<lambda>x. f x < c) xs = []" "filter (\<lambda>x. f x = c) xs = []"
      using le by (auto simp: filter_empty_conv)
    moreover have "\<not> f x < c" "f x \<noteq> c" using 3 by auto
    ultimately show ?thesis using IH by simp
  qed
qed

lemma hd_mono:
  fixes x y :: "('a::linorder) list"
  shows "x \<le> y \<Longrightarrow> x \<noteq> [] \<Longrightarrow> y \<noteq> [] \<Longrightarrow> hd x \<le> hd y"
  by (cases x; cases y) auto

lemma sorted_map_hd:
  fixes xs :: "('a::linorder) list list"
  assumes "sorted xs" "\<forall>x \<in> set xs. x \<noteq> []"
  shows "sorted (map hd xs)"
proof -
  have "sorted_wrt (\<lambda>x y. hd x \<le> hd y) xs"
  proof (rule sorted_wrt_mono_rel[of xs "(\<le>)"])
    fix x y assume "x \<in> set xs" "y \<in> set xs" "x \<le> y"
    then show "hd x \<le> hd y" using assms(2) by (intro hd_mono) auto
  qed (use assms(1) in simp)
  then show ?thesis by (simp add: sorted_map)
qed

lemma valid_text_terminator_last:
  assumes "valid_text t T" "p < length T" "T ! p = t"
  shows "p = length T - 1"
proof (rule ccontr)
  assume "p \<noteq> length T - 1"
  then have p: "p < length (butlast T)" using assms(2) by simp
  then have "butlast T ! p = T ! p" by (simp add: nth_butlast)
  then have "T ! p \<in> set (butlast T)" using p by (metis nth_mem)
  then have "t < T ! p" using assms(1) by (simp add: valid_text_def)
  then show False using assms(3) by simp
qed

lemma valid_text_last: "valid_text t T \<Longrightarrow> T ! (length T - 1) = t"
  by (auto simp: valid_text_def last_conv_nth)

lemma rotate_terminator:
  assumes vt: "valid_text t T" and i: "i < length T" and q: "q < length T"
    and e: "rotate i T ! q = t"
  shows "q = length T - 1 - i"
proof -
  let ?n = "length T"
  have "rotate i T ! q = T ! ((i + q) mod ?n)" using q by (simp add: nth_rotate)
  moreover have "0 < ?n" using q by linarith
  then have "(i + q) mod ?n < ?n" by (rule mod_less_divisor)
  ultimately have m: "(i + q) mod ?n = ?n - 1"
    using valid_text_terminator_last[OF vt] e by simp
  show ?thesis
  proof (cases "i + q < ?n")
    case True
    then show ?thesis using m by simp
  next
    case False
    then have "(i + q) mod ?n = i + q - ?n" using i q by (simp add: mod_if)
    then have "i + q - ?n = ?n - 1" using m by simp
    then show ?thesis using i q False by simp
  qed
qed

lemma rotate_has_terminator:
  assumes vt: "valid_text t T" and i: "i < length T"
  shows "rotate i T ! (length T - 1 - i) = t"
proof -
  have "rotate i T ! (length T - 1 - i) = T ! ((i + (length T - 1 - i)) mod length T)"
    using i by (simp add: nth_rotate)
  also have "i + (length T - 1 - i) = length T - 1" using i by simp
  finally show ?thesis using valid_text_last[OF vt] i by simp
qed

lemma distinct_rotations:
  assumes vt: "valid_text t T"
  shows "distinct (rotations T)"
proof -
  have "inj_on (\<lambda>k. rotate k T) {0..<length T}"
  proof (rule inj_onI)
    fix i j assume i: "i \<in> {0..<length T}" and j: "j \<in> {0..<length T}"
      and e: "rotate i T = rotate j T"
    have "rotate j T ! (length T - 1 - i) = t"
      using rotate_has_terminator[OF vt, of i] i e by simp
    then have "length T - 1 - i = length T - 1 - j"
      using rotate_terminator[OF vt, of j "length T - 1 - i"] i j by simp
    then show "i = j" using i j by simp
  qed
  then show ?thesis by (simp add: rotations_def distinct_map)
qed

lemma map_hd_rotations: "map hd (rotations T) = T"
proof (rule nth_equalityI)
  show "length (map hd (rotations T)) = length T" by simp
  fix i assume "i < length (map hd (rotations T))"
  then have i: "i < length T" by simp
  then have "T \<noteq> []" by auto
  then have "hd (rotate i T) = T ! (i mod length T)" by (rule hd_rotate_conv_nth)
  then show "map hd (rotations T) ! i = T ! i" using i by (simp add: rotations_def)
qed

lemma map_last_rotations: "T \<noteq> [] \<Longrightarrow> map last (rotations T) = rotate (length T - 1) T"
  by (rule nth_equalityI)
     (simp_all add: rotations_def last_conv_nth nth_rotate add.commute)

lemma mset_rotate1: "mset (rotate1 xs) = mset xs"
  by (cases xs) simp_all

lemma mset_rotate: "mset (rotate k xs) = mset xs"
  by (induction k) (simp_all add: mset_rotate1)

lemma length_filter_mset:
  "mset xs = mset ys \<Longrightarrow> length (filter P xs) = length (filter P ys)"
  by (metis mset_filter size_mset)

lemma rows_hd_last:
  assumes "T \<noteq> []"
  shows "length (filter (\<lambda>x. hd x < c) (bwt_rows T)) = C_array (BWT T) c"
proof -
  have "mset (map hd (bwt_rows T)) = mset (map hd (rotations T))"
    by (simp add: bwt_rows_def)
  moreover have "mset (map last (bwt_rows T)) = mset (map last (rotations T))"
    by (simp add: bwt_rows_def)
  moreover have "mset (map last (rotations T)) = mset T"
    by (simp only: map_last_rotations[OF assms] mset_rotate)
  ultimately have "mset (map hd (bwt_rows T)) = mset (map last (bwt_rows T))"
    by (simp only: map_hd_rotations)
  then have "length (filter (\<lambda>x. x < c) (map hd (bwt_rows T)))
           = length (filter (\<lambda>x. x < c) (map last (bwt_rows T)))"
    by (rule length_filter_mset)
  then show ?thesis by (simp add: C_array_def BWT_def filter_map o_def)
qed

lemma rows_facts:
  assumes vt: "valid_text t T"
  shows "sorted (bwt_rows T)" "distinct (bwt_rows T)" "set (bwt_rows T) = set (rotations T)"
    "length (bwt_rows T) = length T" "\<forall>x \<in> set (bwt_rows T). x \<noteq> []"
    "\<forall>x \<in> set (bwt_rows T). length x = length T"
proof -
  show "sorted (bwt_rows T)" by (simp add: bwt_rows_def)
  show "distinct (bwt_rows T)" using distinct_rotations[OF vt] by (simp add: bwt_rows_def)
  show s: "set (bwt_rows T) = set (rotations T)" by (simp add: bwt_rows_def)
  show "length (bwt_rows T) = length T" by (simp add: bwt_rows_def)
  show l: "\<forall>x \<in> set (bwt_rows T). length x = length T"
    using s rotations_length by blast
  have "T \<noteq> []" using vt by (simp add: valid_text_def)
  then show "\<forall>x \<in> set (bwt_rows T). x \<noteq> []" using l by auto
qed

lemma rotate_right_rows:
  assumes vt: "valid_text t T"
  shows "map rotate_right (filter (\<lambda>x. last x = c) (bwt_rows T))
           = filter (\<lambda>x. hd x = c) (bwt_rows T)"
proof (rule sorted_distinct_set_unique)
  let ?M = "bwt_rows T"
  let ?A = "filter (\<lambda>x. last x = c) ?M"
  note f = rows_facts[OF vt]
  have "sorted_wrt (\<lambda>x y. rotate_right x \<le> rotate_right y) ?A"
  proof (rule sorted_wrt_mono_rel[of ?A "(\<le>)"])
    fix x y assume "x \<in> set ?A" "y \<in> set ?A" "x \<le> y"
    then show "rotate_right x \<le> rotate_right y"
      using f(5,6) by (intro rotate_right_mono) auto
  qed (use f(1) in \<open>simp add: sorted_wrt_filter\<close>)
  then show "sorted (map rotate_right ?A)" by (simp add: sorted_map)
  have "inj_on rotate_right (set ?A)"
  proof (rule inj_onI)
    fix x y assume "x \<in> set ?A" "y \<in> set ?A" and e: "rotate_right x = rotate_right y"
    then have "x \<noteq> []" "y \<noteq> []" using f(5) by auto
    then show "x = y" using e by (rule rotate_right_inj)
  qed
  then show "distinct (map rotate_right ?A)" using f(2) by (simp add: distinct_map)
  show "sorted (filter (\<lambda>x. hd x = c) ?M)" using f(1) by (simp add: sorted_wrt_filter)
  show "distinct (filter (\<lambda>x. hd x = c) ?M)" using f(2) by simp
  show "set (map rotate_right ?A) = set (filter (\<lambda>x. hd x = c) ?M)"
  proof (intro equalityI subsetI)
    fix y assume "y \<in> set (map rotate_right ?A)"
    then obtain x where x: "x \<in> set ?M" "last x = c" "y = rotate_right x" by auto
    then have "y \<in> set ?M" using rotate_right_in_rotations f(3) by blast
    moreover have "hd y = c" using x by (simp add: rotate_right_def)
    ultimately show "y \<in> set (filter (\<lambda>x. hd x = c) ?M)" by simp
  next
    fix y assume "y \<in> set (filter (\<lambda>x. hd x = c) ?M)"
    then have y: "y \<in> set ?M" "hd y = c" by simp_all
    then have ne: "y \<noteq> []" using f(5) by blast
    have "rotate1 y \<in> set ?M" using y rotate1_in_rotations f(3) by blast
    moreover have "last (rotate1 y) = c" using ne y by (simp add: last_rotate1)
    moreover have "rotate_right (rotate1 y) = y" using ne by (rule rotate_right_rotate1)
    ultimately show "y \<in> set (map rotate_right ?A)" by force
  qed
qed

lemma rank_rows:
  "rank (BWT T) pos c = length (filter (\<lambda>x. last x = c) (take pos (bwt_rows T)))"
proof -
  have "(\<lambda>x. c = last x) = (\<lambda>x. last x = c)" by auto
  then show ?thesis
    by (simp add: rank_def BWT_def count_list_eq_length_filter take_map filter_map o_def)
qed

lemma LF_rotation:
  assumes vt: "valid_text t T" and pos: "pos < length T" and c: "BWT T ! pos = c"
  shows "C_array (BWT T) c + rank (BWT T) pos c < length T \<and>
         bwt_rows T ! (C_array (BWT T) c + rank (BWT T) pos c) = rotate_right (bwt_rows T ! pos)"
proof -
  let ?M = "bwt_rows T"
  let ?A = "filter (\<lambda>x. last x = c) ?M"
  let ?B = "filter (\<lambda>x. hd x = c) ?M"
  let ?L = "filter (\<lambda>x. hd x < c) ?M"
  let ?k = "rank (BWT T) pos c"
  note f = rows_facts[OF vt]
  have T: "T \<noteq> []" using vt by (simp add: valid_text_def)
  have "last (?M ! pos) = c" using c pos f(4) by (simp add: BWT_def)
  then have k: "?k < length ?A" "?A ! ?k = ?M ! pos"
    using filter_nth_count[of pos ?M "\<lambda>x. last x = c"] pos f(4) by (simp_all add: rank_rows)
  have AB: "map rotate_right ?A = ?B" using vt by (rule rotate_right_rows)
  then have lB: "length ?B = length ?A" by (metis length_map)
  have Bk: "?B ! ?k = rotate_right (?M ! pos)"
    using k AB by (metis nth_map)
  have "sorted (map hd ?M)" using f(1,5) by (rule sorted_map_hd)
  then have M: "?M = ?L @ ?B @ filter (\<lambda>x. c < hd x) ?M" by (rule sorted_three_way)
  have L: "length ?L = C_array (BWT T) c" using T by (rule rows_hd_last)
  have "(?L @ ?B @ filter (\<lambda>x. c < hd x) ?M) ! (length ?L + ?k) = ?B ! ?k"
    using k(1) lB by (simp add: nth_append)
  then have 1: "?M ! (length ?L + ?k) = ?B ! ?k" using M by simp
  have "length ?L + ?k < length (?L @ ?B @ filter (\<lambda>x. c < hd x) ?M)"
    using k(1) lB by simp
  then have 2: "length ?L + ?k < length ?M" using M by simp
  show ?thesis using 1 2 Bk L f(4) by simp
qed

lemma length_BWT [simp]: "length (BWT T) = length T"
  by (simp add: BWT_def bwt_rows_def)

lemma pml_next_cases:
  assumes "pml_next idx c (pos, len) = (pos', len')" and "pos \<le> length (bwt idx)"
  shows "len' = 0 \<or> (pos' = pos \<and> len' = len + 1 \<and> pos < length (bwt idx) \<and> bwt idx ! pos = c)"
  using assms by (auto simp: pml_next_def Let_def same_char_iff split: if_splits)

lemma row_is_rotation:
  assumes vt: "valid_text t T" and pos: "pos < length T"
  shows "\<exists>k<length T. bwt_rows T ! pos = rotate k T"
proof -
  have "bwt_rows T ! pos \<in> set (bwt_rows T)" using pos rows_facts(4)[OF vt] by simp
  then have "bwt_rows T ! pos \<in> set (rotations T)" using rows_facts(3)[OF vt] by simp
  then show ?thesis by (auto simp: set_rotations)
qed

lemma row_prefix_short:
  assumes vt: "valid_text t T" and pos: "pos < length T"
    and pre: "take len (bwt_rows T ! pos) = take len w" and nt: "t \<notin> set w"
  shows "len < length T"
proof (rule ccontr)
  assume "\<not> len < length T"
  then have len: "length T \<le> len" by simp
  obtain k where k: "bwt_rows T ! pos = rotate k T" using row_is_rotation[OF vt pos] by blast
  have T: "T \<noteq> []" "last T = t" using vt by (simp_all add: valid_text_def)
  then have "t \<in> set (rotate k T)" by (metis last_in_set set_rotate)
  moreover have "take len (rotate k T) = rotate k T" using len by simp
  then have "rotate k T = take len w" using pre k by metis
  ultimately have "t \<in> set (take len w)" by metis
  then show False using nt by (meson in_set_takeD)
qed

lemma pml_step_inv:
  assumes vt: "valid_text t T" and b: "bwt idx = BWT T" and ok: "pml_index_ok idx"
    and inv: "pml_inv T w st" and nt: "t \<notin> set w"
  shows "pml_inv T (c # w) (pml_next_step idx c st)"
proof -
  obtain pos len where st: "st = (pos, len)" by (cases st)
  obtain pos' len' where tr: "pml_next idx c (pos, len) = (pos', len')"
    by (cases "pml_next idx c (pos, len)")
  from ok have F: "F_ok idx" and n: "length (bwt idx) < 18446744073709551615"
    by (simp_all add: pml_index_ok_def)
  have step: "pml_next_step idx c st = (spec_LF idx pos' c, len')"
    by (simp add: pml_next_step_def st tr)
  have le: "spec_LF idx pos' c \<le> length T"
    using LF_ok[OF F n, of pos' c] b by simp
  have ple: "pos \<le> length (bwt idx)" using inv st b by (simp add: pml_inv_def)
  from pml_next_cases[OF tr ple]
  show ?thesis
  proof
    assume "len' = 0"
    then show ?thesis using le by (simp add: step pml_inv_def)
  next
    assume m: "pos' = pos \<and> len' = len + 1 \<and> pos < length (bwt idx) \<and> bwt idx ! pos = c"
    then have pos: "pos < length T" and c: "BWT T ! pos = c" using b by simp_all
    let ?M = "bwt_rows T"
    have lf: "spec_LF idx pos c = C_array (BWT T) c + rank (BWT T) pos c"
      using F_ok_nth[OF F, of c] b by (simp add: spec_LF_def)
    from LF_rotation[OF vt pos c]
    have lt: "spec_LF idx pos c < length T"
      and row: "?M ! spec_LF idx pos c = rotate_right (?M ! pos)"
      by (simp_all add: lf)
    have "last (?M ! pos) = c" using c pos rows_facts(4)[OF vt] by (simp add: BWT_def)
    then have row': "?M ! spec_LF idx pos c = c # butlast (?M ! pos)"
      using row by (simp add: rotate_right_def)
    have lw: "len \<le> length w" using inv st by (simp add: pml_inv_def)
    have "take len (butlast (?M ! pos)) = take len w"
    proof (cases "len = 0")
      case True
      then show ?thesis by simp
    next
      case False
      then have pre: "take len (?M ! pos) = take len w" using inv st by (simp add: pml_inv_def)
      have "len < length T" using vt pos pre nt by (rule row_prefix_short)
      moreover have "length (?M ! pos) = length T"
        using rows_facts(4,6)[OF vt] pos by simp
      ultimately have "take len (butlast (?M ! pos)) = take len (?M ! pos)"
        by (simp add: take_butlast)
      then show ?thesis using pre by simp
    qed
    then show ?thesis using m lt lw row' by (simp add: step pml_inv_def)
  qed
qed

lemma pml_after_inv:
  assumes vt: "valid_text t T" and b: "bwt idx = BWT T" and ok: "pml_index_ok idx"
  shows "pml_inv T w st \<Longrightarrow> t \<notin> set cs \<Longrightarrow> t \<notin> set w \<Longrightarrow>
         pml_inv T (rev cs @ w) (pml_after idx cs st)"
proof (induction cs arbitrary: w st)
  case Nil
  then show ?case by simp
next
  case (Cons c cs)
  have "pml_inv T (c # w) (pml_next_step idx c st)"
    using vt b ok Cons.prems(1,3) by (rule pml_step_inv)
  moreover have "t \<notin> set cs" "t \<notin> set (c # w)" using Cons.prems by auto
  ultimately have "pml_inv T (rev cs @ c # w) (pml_after idx cs (pml_next_step idx c st))"
    by (rule Cons.IH)
  then show ?case by simp
qed

lemma occurs_iff: "occurs w T \<longleftrightarrow> (\<exists>k\<le>length T. take (length w) (drop k T) = w)"
proof -
  have "set [0..<Suc (length T)] = {k. k \<le> length T}" by auto
  then show ?thesis unfolding occurs_def list_ex_iff by blast
qed

lemma inv_occurs:
  assumes vt: "valid_text t T" and inv: "pml_inv T w (pos, len)" and nt: "t \<notin> set w"
  shows "len \<le> length w \<and> occurs (take len w) T"
proof (cases "len = 0")
  case True
  have "occurs [] T" unfolding occurs_iff by (intro exI[of _ 0]) simp
  then show ?thesis using True by simp
next
  case False
  then have lw: "len \<le> length w" and pos: "pos < length T"
    and pre: "take len (bwt_rows T ! pos) = take len w"
    using inv by (simp_all add: pml_inv_def)
  obtain k where k: "k < length T" "bwt_rows T ! pos = rotate k T"
    using row_is_rotation[OF vt pos] by blast
  have T: "T \<noteq> []" "last T = t" using vt by (simp_all add: valid_text_def)
  have rot: "rotate k T = drop k T @ take k T" using k(1) by (simp add: rotate_drop_take)
  have dk: "drop k T \<noteq> []" using k(1) by simp
  then have "last (drop k T) = t" using T k(1) by simp
  then have tin: "t \<in> set (drop k T)" using dk by (metis last_in_set)
  have short: "len < length (drop k T)"
  proof (rule ccontr)
    assume "\<not> len < length (drop k T)"
    then have "take len (drop k T @ take k T) = drop k T @ take (len - length (drop k T)) (take k T)"
      by simp
    then have "t \<in> set (take len (rotate k T))" using tin rot by simp
    then have "t \<in> set (take len w)" using pre k(2) by simp
    then show False using nt by (meson in_set_takeD)
  qed
  then have "take len (rotate k T) = take len (drop k T)" using rot by simp
  then have "take (length (take len w)) (drop k T) = take len w"
    using pre k(2) lw by simp
  then have "occurs (take len w) T" using k(1) unfolding occurs_iff
    by (intro exI[of _ k]) simp
  then show ?thesis using lw by simp
qed

lemma longest_match_ge:
  assumes "l \<le> length P - i" "occurs (take l (drop i P)) T"
  shows "l \<le> longest_match T P i"
proof -
  have "l \<in> set (filter (\<lambda>l. occurs (take l (drop i P)) T) [0..<Suc (length P - i)])"
    using assms by (simp del: upt_Suc add: less_Suc_eq_le)
  then show ?thesis unfolding longest_match_def by (intro Max_ge) simp_all
qed

lemma banana_any_thresholds:
  "pml_query (banana\<lparr>thresholds := thr\<rparr>) ''ANA'' = Some [1, 0, 1]"
proof -
  let ?idx = "banana\<lparr>thresholds := thr\<rparr>"
  have i: "u64_dec (bwt_size ?idx) = 6" by (simp add: banana_eval)
  have lf: "LF ?idx 6 CHR ''A'' = Some 3" "LF ?idx 2 CHR ''N'' = Some 6"
    by (simp_all add: LF_def banana_eval)
  have up: "pml_update ?idx CHR ''A'' (6, 0) = Some (6, Suc 0)"
    "pml_update ?idx CHR ''N'' (3, Suc 0) = Some (2, 0)"
    by (simp_all add: pml_update_def banana_eval)
  show ?thesis by (simp add: pml_query_run i lf up)
qed

subsection \<open>The loop bodies and the transitions of the specification\<close>

lemma spec_pml_after_snoc:
  "spec_pml_after idx (cs @ [c]) st = spec_pml_step idx c (spec_pml_after idx cs st)"
  by (induction cs arbitrary: st) simp_all

lemma spec_pml_state_after:
  "i \<le> length P \<Longrightarrow>
   spec_pml_state idx P i = spec_pml_after idx (take i (rev P)) (length (bwt idx) - 1, 0)"
proof (induction i)
  case 0
  show ?case by simp
next
  case (Suc i)
  then have i: "i < length P" by simp
  have "take (Suc i) (rev P) = take i (rev P) @ [rev P ! i]"
    using i by (simp add: take_Suc_conv_app_nth)
  moreover have "rev P ! i = P ! (length P - 1 - i)"
    using i by (simp add: rev_nth)
  ultimately show ?case using Suc i
    by (simp add: spec_pml_after_snoc spec_pml_step_def split: prod.splits)
qed

lemma pml_next_spec:
  assumes "of_char c < (128::nat)"
  shows "pml_next idx c st = spec_pml_transition idx c st"
proof -
  obtain pos len where st: "st = (pos, len)" by (cases st)
  have "(pos < length (bwt idx) \<and> same_char (bwt idx ! pos) c)
      = (spec_access (bwt idx) pos = Some c)"
    using assms by (auto simp: same_char_iff spec_access_def)
  then show ?thesis by (simp add: st pml_next_def spec_pml_transition_def Let_def)
qed

lemma pml_after_spec:
  "\<forall>c \<in> set cs. of_char c < (128::nat) \<Longrightarrow> pml_after idx cs st = spec_pml_after idx cs st"
  by (induction cs arbitrary: st)
     (simp_all add: pml_next_step_def spec_pml_step_def pml_next_spec)

lemma pml_query_follows_spec:
  assumes "pml_index_ok idx" and "length P \<le> INT_MAX"
    and "\<forall>c \<in> set P. of_char c < (128::nat)"
  shows "\<exists>lengths. pml_query idx P = Some lengths \<and> length lengths = length P \<and>
           (\<forall>i<length P. lengths ! (length P - 1 - i) = snd (spec_pml_state idx P (Suc i)))"
proof -
  let ?st0 = "(length (bwt idx) - 1, 0::nat)"
  obtain out where out: "pml_run idx (rev P) ?st0 = Some out" "length out = length P"
      "\<forall>i<length P. out ! i = snd (pml_after idx (take (Suc i) (rev P)) ?st0)"
    using pml_run_after[OF assms(1), of ?st0 "rev P"] assms(2) by auto
  have q: "pml_query idx P = Some (rev out)"
    using out(1) by (simp add: pml_query_run init_pos[OF assms(1)])
  have "\<forall>i<length P. rev out ! (length P - 1 - i) = snd (spec_pml_state idx P (Suc i))"
  proof (intro allI impI)
    fix i assume i: "i < length P"
    have low: "\<forall>c \<in> set (take (Suc i) (rev P)). of_char c < (128::nat)"
      using assms(3) by (metis in_set_takeD set_rev)
    have "rev out ! (length P - 1 - i) = out ! i"
      using out(2) i by (simp add: rev_nth)
    also have "\<dots> = snd (pml_after idx (take (Suc i) (rev P)) ?st0)"
      using out(3) i by simp
    also have "\<dots> = snd (spec_pml_after idx (take (Suc i) (rev P)) ?st0)"
      using low by (simp only: pml_after_spec)
    also have "\<dots> = snd (spec_pml_state idx P (Suc i))"
      using spec_pml_state_after[of "Suc i" P idx] i by simp
    finally show "rev out ! (length P - 1 - i) = snd (spec_pml_state idx P (Suc i))" .
  qed
  with q out(2) show ?thesis by simp
qed

lemma ms_next_spec:
  assumes c: "of_char c < (128::nat)" and s: "0 < sample" "sample < 18446744073709551616"
    and e: "ms_next idx c (pos, sample) = (pos', sample')"
  shows "spec_ms_transition idx c (pos, int sample) = (pos', int sample')"
proof -
  have m: "(pos < length (bwt idx) \<and> same_char (bwt idx ! pos) c)
      = (spec_access (bwt idx) pos = Some c)"
    using c by (auto simp: same_char_iff spec_access_def)
  have d: "int (u64_dec sample) = int sample - 1" using s by (simp add: u64_dec_pos)
  show ?thesis using e
    by (auto simp: ms_next_def spec_ms_transition_def Let_def m d split: if_splits)
qed

subsection \<open>The indexes with bytes from 0x80 on and the index of A$\<close>

lemma hi_fields:
  "bwt hi_index = hi_bwt" "F hi_index = map (\<lambda>k. C_array hi_bwt (char_of k)) [0..<256]"
  "thresholds hi_index = [0, 0, 0]" "samples_last hi_index = [1, 0, 2]"
  "samples_start hi_index = [1, 0, 2]" "r hi_index = 3"
  by (simp_all add: hi_index_def)

lemmas hi_eval = hi_fields same_char_def char_value_def number_of_letter_def rank_def select_def
  occurrences_def run_of_position_def run_heads_def at_def size_bwt_def bwt_size_def hi_bwt_def
  C_array_def less_char_def u64_def u64_dec_def INT_MAX_def upt_rec_numeral

lemma hi_F_ok: "F_ok hi_index"
  by (simp add: F_ok_def hi_fields)

lemma hi_ok: "pml_index_ok hi_index"
proof -
  have "first_thresholds_zero hi_index"
    by (simp add: first_thresholds_zero_def hi_eval)
  moreover have "length (thresholds hi_index) = number_of_runs (bwt hi_index)"
    by (simp add: number_of_runs_def hi_eval)
  ultimately show ?thesis
    using hi_F_ok by (simp add: pml_index_ok_def hi_fields hi_bwt_def)
qed

lemma hi_ms_ok: "ms_index_ok hi_index"
  using hi_ok by (simp add: ms_index_ok_def hi_eval number_of_runs_def)

lemma hi_valid: "valid_text (CHR 0x01) hi_text"
  by (simp add: valid_text_def hi_text_def)

lemma hi_BWT: "BWT hi_text = hi_bwt"
  by (simp add: BWT_def bwt_rows_def rotations_def hi_text_def hi_bwt_def upt_rec rotate_def
      rotate1_def eval_nat_numeral)

lemma hi_LF:
  "LF hi_index 0 CHR ''A'' = Some 1"
  "LF hi_index (Suc 0) CHR 0xC8 = Some 2"
  by (simp_all add: LF_def hi_eval)

lemma hi_pml_update:
  "pml_update hi_index CHR ''A'' (2, 0) = Some (0, 0)"
  "pml_update hi_index CHR 0xC8 (Suc 0, 0) = Some (Suc 0, 0)"
  by (simp_all add: pml_update_def hi_eval)

lemma hi_init: "u64_dec (bwt_size hi_index) = 2"
  by (simp add: hi_eval)

lemma hi_pml: "pml_query hi_index [CHR 0xC8, CHR ''A''] = Some [0, 0]"
  by (simp add: pml_query_run hi_init hi_LF hi_pml_update)

lemma hi_spec:
  "spec_pml_state hi_index [CHR 0xC8, CHR ''A''] (Suc 0) = (Suc 0, 0)"
  "spec_pml_state hi_index [CHR 0xC8, CHR ''A''] (Suc (Suc 0)) = (2, Suc 0)"
proof -
  have t1: "spec_pml_transition hi_index CHR ''A'' (Suc (Suc 0), 0) = (0, 0)"
    by (simp add: spec_pml_transition_def spec_access_def spec_select_def spec_run_of_position_def
        hi_eval Let_def)
  have l1: "spec_LF hi_index 0 CHR ''A'' = Suc 0"
    by (simp add: spec_LF_def hi_eval)
  show s1: "spec_pml_state hi_index [CHR 0xC8, CHR ''A''] (Suc 0) = (Suc 0, 0)"
    by (simp add: hi_fields hi_bwt_def t1 l1 Let_def)
  have t2: "spec_pml_transition hi_index CHR 0xC8 (Suc 0, 0) = (Suc 0, Suc 0)"
    by (simp add: spec_pml_transition_def spec_access_def hi_eval Let_def)
  have l2: "spec_LF hi_index (Suc 0) CHR 0xC8 = 2"
    by (simp add: spec_LF_def hi_eval)
  show "spec_pml_state hi_index [CHR 0xC8, CHR ''A''] (Suc (Suc 0)) = (2, Suc 0)"
    using s1 by (simp add: hi_fields hi_bwt_def t2 l2 Let_def)
qed

lemma hahb_fields:
  "bwt hahb = hahb_bwt" "F hahb = map (\<lambda>k. C_array hahb_bwt (char_of k)) [0..<256]"
  "thresholds hahb = [0, 0, 0, 0]" "samples_last hahb = [3, 2, 4, 1]"
  "samples_start hahb = [3, 0, 4, 1]" "r hahb = 4"
  by (simp_all add: hahb_def)

lemmas hahb_eval = hahb_fields same_char_def char_value_def number_of_letter_def rank_def
  select_def occurrences_def run_of_position_def run_heads_def at_def size_bwt_def bwt_size_def
  hahb_bwt_def C_array_def less_char_def u64_def u64_dec_def INT_MAX_def upt_rec_numeral

lemma hahb_ok: "pml_index_ok hahb"
proof -
  have "first_thresholds_zero hahb"
    by (simp add: first_thresholds_zero_def hahb_eval)
  moreover have "length (thresholds hahb) = number_of_runs (bwt hahb)"
    by (simp add: number_of_runs_def hahb_eval)
  moreover have "F_ok hahb" by (simp add: F_ok_def hahb_fields)
  ultimately show ?thesis
    by (simp add: pml_index_ok_def hahb_fields hahb_bwt_def)
qed

lemma hahb_ms_ok: "ms_index_ok hahb"
  using hahb_ok by (simp add: ms_index_ok_def hahb_eval number_of_runs_def)

lemma hahb_valid: "valid_text (CHR 0x01) hahb_text"
  by (simp add: valid_text_def hahb_text_def less_char_def)

lemma hahb_BWT: "BWT hahb_text = hahb_bwt"
  by (simp add: BWT_def bwt_rows_def rotations_def hahb_text_def hahb_bwt_def upt_rec
      rotate_def rotate1_def eval_nat_numeral)

lemma hahb_init: "u64_dec (bwt_size hahb) = 4" "get_last_run_sample hahb = Some (Suc 0)"
  by (simp_all add: get_last_run_sample_def hahb_eval)

lemma hahb_LF:
  "LF hahb 0 CHR ''B'' = Some 2"
  "LF hahb 2 CHR 0xC8 = Some 4"
  "LF hahb 4 CHR ''A'' = Some (Suc 0)"
  by (simp_all add: LF_def hahb_eval)

lemma hahb_ms_update:
  "ms_update hahb CHR ''B'' (4, Suc 0) = Some (0, 3)"
  "ms_update hahb CHR 0xC8 (2, 3) = Some (2, 0)"
  "ms_update hahb CHR ''A'' (4, 0) = Some (4, 18446744073709551615)"
  by (simp_all add: ms_update_def hahb_eval)

lemma hahb_ms:
  "ms_query hahb [CHR ''A'', CHR 0xC8, CHR ''B''] = Some [18446744073709551615, 0, 3]"
  by (simp add: ms_query_run ms_body_def hahb_init hahb_LF hahb_ms_update)

lemma hahb_spec:
  "spec_ms_state hahb [CHR ''A'', CHR 0xC8, CHR ''B''] (Suc 0) = (2, 3)"
  "spec_ms_state hahb [CHR ''A'', CHR 0xC8, CHR ''B''] (Suc (Suc 0)) = (4, 2)"
  "spec_ms_state hahb [CHR ''A'', CHR 0xC8, CHR ''B''] (Suc (Suc (Suc 0))) = (Suc 0, 1)"
proof -
  let ?P = "[CHR ''A'', CHR 0xC8, CHR ''B'']"
  have s0: "spec_ms_state hahb ?P 0 = (4, 1)"
    by (simp add: hahb_fields hahb_bwt_def)
  have t1: "spec_ms_transition hahb CHR ''B'' (4, 1) = (0, 3)"
    by (simp add: spec_ms_transition_def spec_access_def spec_select_def
        spec_run_of_position_def hahb_eval Let_def)
  have l1: "spec_LF hahb 0 CHR ''B'' = 2"
    by (simp add: spec_LF_def hahb_eval)
  show s1: "spec_ms_state hahb ?P (Suc 0) = (2, 3)"
    by (subst spec_ms_state.simps(2)) (simp add: s0 t1 l1 Let_def del: spec_ms_state.simps)
  have t2: "spec_ms_transition hahb CHR 0xC8 (2, 3) = (2, 2)"
    by (simp add: spec_ms_transition_def spec_access_def hahb_eval Let_def)
  have l2: "spec_LF hahb 2 CHR 0xC8 = 4"
    by (simp add: spec_LF_def hahb_eval)
  show s2: "spec_ms_state hahb ?P (Suc (Suc 0)) = (4, 2)"
    by (subst spec_ms_state.simps(2)) (simp add: s1 t2 l2 Let_def del: spec_ms_state.simps)
  have t3: "spec_ms_transition hahb CHR ''A'' (4, 2) = (4, 1)"
    by (simp add: spec_ms_transition_def spec_access_def hahb_eval Let_def)
  have l3: "spec_LF hahb 4 CHR ''A'' = Suc 0"
    by (simp add: spec_LF_def hahb_eval)
  show "spec_ms_state hahb ?P (Suc (Suc (Suc 0))) = (Suc 0, 1)"
    by (subst spec_ms_state.simps(2)) (simp add: s2 t3 l3 Let_def del: spec_ms_state.simps)
qed

lemma hahb_sweep_spec:
  "spec_lengths [CHR ''A'', CHR 0xC8, CHR ''B''] (\<lambda>k. hahb_text ! k) (length hahb_text)
     [18446744073709551615, 0, 3] = [0, 1, 1]"
proof -
  let ?P = "[CHR ''A'', CHR 0xC8, CHR ''B'']"
  let ?ptrs = "[18446744073709551615, 0, 3::nat]"
  let ?scan = "spec_scan ?P 3 (\<lambda>k. hahb_text ! k) 5 ?ptrs"
  let ?ext = "spec_extend ?P 3 (\<lambda>k. hahb_text ! k) 5 ?ptrs"
  have e0: "?ext 0 (?ptrs ! 0) 0 = 0"
    by (simp add: spec_extend.simps hahb_text_def)
  have e1: "?ext 1 (?ptrs ! 1) 0 = 1"
    by (simp add: spec_extend.simps hahb_text_def)
  have e2: "?ext 2 (?ptrs ! 2) 0 = 1"
    by (simp add: spec_extend.simps hahb_text_def)
  have s3: "?scan 3 0 = []" by (rule spec_scan_end) simp
  have s2: "?scan 2 0 = [1]" using spec_scan_step[of 2 3, OF _ e2] s3 by (simp add: numeral_3_eq_3)
  have s1: "?scan 1 0 = [1, 1]" using spec_scan_step[of 1 3, OF _ e1] s2 by (simp add: numeral_2_eq_2)
  have s0: "?scan 0 0 = [0, 1, 1]" using spec_scan_step[of 0 3, OF _ e0] s1 by simp
  have l1: "length ?P = 3" by simp
  have l2: "length hahb_text = 5" by (simp add: hahb_text_def)
  show ?thesis by (simp only: spec_lengths_def l1 l2 s0)
qed

lemma hahb_sweep:
  "matching_statistics hahb hahb_text [CHR ''A'', CHR 0xC8, CHR ''B'']
     = Some ([0, 0, 1], [18446744073709551615, 0, 3])"
proof -
  let ?P = "[CHR ''A'', CHR 0xC8, CHR ''B'']"
  let ?T = "[CHR 0xC8, CHR ''A'', CHR 0xC8, CHR ''B'', CHR 0x01]"
  let ?ptrs = "[18446744073709551615, 0, 3::nat]"
  have w0: "ms_while ?P 3 ?T ?ptrs 0 18446744073709551615 0 = 0"
    by (subst ms_while.simps) (simp add: u64_def)
  have w1: "ms_while ?P 3 ?T ?ptrs (Suc 0) 0 0 = 0"
    by (subst ms_while.simps) (simp add: u64_def)
  have w2b: "ms_while ?P 3 ?T ?ptrs 2 3 (Suc 0) = Suc 0"
    by (subst ms_while.simps) (simp add: u64_def)
  have w2: "ms_while ?P 3 ?T ?ptrs 2 3 0 = Suc 0"
    by (subst ms_while.simps) (simp add: u64_def w2b)
  have "ms_sweep ?P 3 ?T ?ptrs 0 0 [0, 0, 0] = [0, 0, 1]"
    by (simp add: ms_sweep.simps w0 w1 w2 Let_def numeral_2_eq_2[symmetric])
  then show ?thesis
    by (simp add: matching_statistics_def hahb_ms numeral_3_eq_3 hahb_text_def)
qed

lemma tiny_fields:
  "bwt tiny_index = tiny_bwt" "F tiny_index = map (\<lambda>k. C_array tiny_bwt (char_of k)) [0..<256]"
  "thresholds tiny_index = [0, 0]" "samples_last tiny_index = [0, 1]"
  "samples_start tiny_index = [0, 1]" "r tiny_index = 2"
  by (simp_all add: tiny_index_def)

lemmas tiny_eval = tiny_fields same_char_def char_value_def number_of_letter_def rank_def
  select_def occurrences_def run_of_position_def run_heads_def at_def size_bwt_def bwt_size_def
  tiny_bwt_def C_array_def less_char_def u64_def u64_dec_def upt_rec_numeral

lemma tiny_ok: "pml_index_ok tiny_index"
proof -
  have "first_thresholds_zero tiny_index"
    by (simp add: first_thresholds_zero_def tiny_eval)
  moreover have "length (thresholds tiny_index) = number_of_runs (bwt tiny_index)"
    by (simp add: number_of_runs_def tiny_eval)
  moreover have "F_ok tiny_index" by (simp add: F_ok_def tiny_fields)
  ultimately show ?thesis
    by (simp add: pml_index_ok_def tiny_fields tiny_bwt_def)
qed

lemma tiny_valid: "valid_text (CHR 0x01) tiny_text"
  by (simp add: valid_text_def tiny_text_def less_char_def)

lemma tiny_BWT: "BWT tiny_text = tiny_bwt"
  by (simp add: BWT_def bwt_rows_def rotations_def tiny_text_def tiny_bwt_def upt_rec
      rotate_def rotate1_def eval_nat_numeral)

lemma tiny_LF:
  "LF tiny_index (Suc 0) CHR 0x01 = Some 0"
  "LF tiny_index 0 CHR ''A'' = Some (Suc 0)"
  by (simp_all add: LF_def tiny_eval)

lemma tiny_pml_update:
  "pml_update tiny_index CHR 0x01 (Suc 0, len) = (if len < INT_MAX then Some (Suc 0, len + 1) else None)"
  "pml_update tiny_index CHR ''A'' (0, len) = (if len < INT_MAX then Some (0, len + 1) else None)"
  by (simp_all add: pml_update_def tiny_eval)

lemma tiny_overflow:
  "len \<le> INT_MAX \<Longrightarrow> INT_MAX < len + 2 * k \<Longrightarrow>
   pml_run tiny_index (concat (replicate k [CHR 0x01, CHR ''A''])) (Suc 0, len) = None"
proof (induction k arbitrary: len)
  case 0
  then show ?case by simp
next
  case (Suc k)
  show ?case
  proof (cases "len + 2 \<le> INT_MAX")
    case True
    then have "pml_run tiny_index (concat (replicate k [CHR 0x01, CHR ''A''])) (Suc 0, len + 2) = None"
      using Suc.prems by (intro Suc.IH) simp_all
    then show ?thesis using True by (simp add: tiny_pml_update tiny_LF)
  next
    case False
    then show ?thesis by (simp add: tiny_pml_update tiny_LF)
  qed
qed

lemma tiny_init: "u64_dec (bwt_size tiny_index) = Suc 0"
  by (simp add: tiny_eval)

lemma rev_blocks: "rev (concat (replicate k [a, b])) = concat (replicate k [b, a])"
  by (simp add: rev_concat map_replicate_const)

lemma tiny_pml_none:
  "pml_query tiny_index (concat (replicate 1073741824 [CHR ''A'', CHR 0x01])) = None"
proof -
  have "pml_run tiny_index (concat (replicate 1073741824 [CHR 0x01, CHR ''A''])) (Suc 0, 0) = None"
    by (rule tiny_overflow) (simp_all add: INT_MAX_def)
  then show ?thesis by (simp only: pml_query_run tiny_init rev_blocks option.map)
qed

section \<open>Claims about the PML query\<close>

text \<open>
  C2.  The claim that the query applies the transition of section 4.4 for every pattern
  fails on the code.  On the index of the reference \<open>0xC8 A $\<close> (its BWT is \<open>A 0xC8 $\<close>;
  the invariants hold, lemma \<open>hi_ok\<close>) and the pattern \<open>0xC8 A\<close>, the step on \<open>A\<close> starts at
  \<open>pos = 2\<close>, where \<open>bwt[2] = $\<close>, snaps to row 0 with length 0 and advances to
  \<open>LF(0, A) = 1\<close>.  The next character is \<open>0xC8\<close> and \<open>bwt[1] = 0xC8\<close>: section 4.4 emits
  \<open>length + 1 = 1\<close> and keeps \<open>pos\<close>.  The source compares the byte 200 of the BWT with the
  \<open>char\<close> of value \<open>-56\<close>, takes the mismatch branch, and emits 0.  The query returns
  \<open>[0, 0]\<close> where the transition gives \<open>[1, 0]\<close>.  For patterns of bytes below \<open>0x80\<close> and
  of at most \<open>INT_MAX\<close> bytes the query applies the transition (lemma
  \<open>pml_query_follows_spec\<close>).
\<close>

theorem pml_query_high_byte:
  "bwt hi_index = BWT hi_text \<and>
   pml_query hi_index [CHR 0xC8, CHR ''A''] = Some [0, 0] \<and>
   snd (spec_pml_state hi_index [CHR 0xC8, CHR ''A''] 1) = 0 \<and>
   snd (spec_pml_state hi_index [CHR 0xC8, CHR ''A''] 2) = 1"
  using hi_pml hi_spec by (simp add: hi_BWT hi_fields numeral_2_eq_2)

section \<open>Claims about the MS query\<close>

text \<open>
  C3.  The claim that the query applies the transition of section 4.5 for every pattern
  fails on the code.  The index \<open>hahb\<close> is that of the reference \<open>0xC8 A 0xC8 B $\<close> (the
  invariants hold, lemma \<open>hahb_ms_ok\<close>); the pattern is \<open>A 0xC8 B\<close>, a substring of the
  reference.  The step on \<open>B\<close> starts at \<open>pos = 4\<close>, where \<open>bwt[4] = A\<close>, snaps to row 0 with
  \<open>sample = samples_last[0] = 3\<close> and advances to \<open>LF(0, B) = 2\<close>, for the source and for
  the transition alike.  The next character is \<open>0xC8\<close> and \<open>bwt[2] = 0xC8\<close>: section 4.5
  decrements the sample to 2.  The source compares the byte 200 of the BWT with the \<open>char\<close>
  of value \<open>-56\<close>, takes the mismatch branch, finds \<open>j = select(rank(2, c), c) = 2\<close> in run
  1 and sets \<open>sample = samples_start[1] = 0\<close>.  Both advance to \<open>LF(2, 0xC8) = 4\<close>, where
  the step on \<open>A\<close> matches: the transition gives 1, the source decrements 0 to
  \<open>2^64 - 1\<close>.  The query returns \<open>[2^64 - 1, 0, 3]\<close> where the transition gives
  \<open>[1, 2, 3]\<close>, the positions of the pattern in the reference.  For a byte below \<open>0x80\<close> and
  a sample above 0 the body of the loop is the transition (lemma \<open>ms_next_spec\<close>).
\<close>

theorem ms_query_high_byte:
  "bwt hahb = BWT hahb_text \<and>
   ms_query hahb [CHR ''A'', CHR 0xC8, CHR ''B''] = Some [18446744073709551615, 0, 3] \<and>
   snd (spec_ms_state hahb [CHR ''A'', CHR 0xC8, CHR ''B''] 1) = 3 \<and>
   snd (spec_ms_state hahb [CHR ''A'', CHR 0xC8, CHR ''B''] 2) = 2 \<and>
   snd (spec_ms_state hahb [CHR ''A'', CHR 0xC8, CHR ''B''] 3) = 1"
  using hahb_ms hahb_spec
  by (simp add: hahb_BWT hahb_fields numeral_2_eq_2 numeral_3_eq_3)

text \<open>
  C5.  The claim that every emitted pointer is below \<open>n\<close> fails on the code.  On the index
  of \<open>BANANA$\<close> (which satisfies the invariants, lemma \<open>banana_ms_ok\<close>) and the pattern \<open>AC\<close>, the character \<open>C\<close> is absent from the reference, so
  the first step sets \<open>sample = 0\<close> and moves to \<open>pos = F[C] = 5\<close>; there \<open>bwt[5] = A\<close>, so
  the step on \<open>A\<close> takes the matching branch and \<open>sample--\<close> wraps to \<open>2^64 - 1\<close>, which is
  written to \<open>pointers[0]\<close>.
\<close>

theorem ms_pointer_underflow:
  "number_of_letter (bwt banana) CHR ''C'' = 0 \<and>
   ms_query banana ''AC'' = Some [18446744073709551615, 0] \<and>
   \<not> 18446744073709551615 < length (bwt banana)"
proof -
  have "ms_query banana ''AC'' = Some [18446744073709551615, 0]"
    by (simp add: ms_query_run banana_last_run_sample banana_init ms_body_def banana_LF2 banana_ms_update)
  moreover have "number_of_letter (bwt banana) CHR ''C'' = 0" by (simp add: banana_eval)
  ultimately show ?thesis by (simp add: banana_fields banana_bwt_def)
qed

section \<open>Claims about the queries returning\<close>

text \<open>
  C8 (as amended).  On a loaded MS index the query returns exactly \<open>m\<close> pointers for every
  pattern of \<open>m\<close> bytes, and on a loaded PML index the query returns exactly \<open>m\<close> lengths
  for every pattern of \<open>m \<le> INT_MAX\<close> bytes, whatever the bytes are: within the range of
  the \<open>int\<close> that counts the length, no step of either loop reaches an undefined access.
\<close>

theorem queries_total:
  assumes "pml_index_ok pidx" and "ms_index_ok midx"
  shows "(length P \<le> INT_MAX \<longrightarrow>
            (\<exists>lengths. pml_query pidx P = Some lengths \<and> length lengths = length P)) \<and>
         (\<exists>pointers. ms_query midx P = Some pointers \<and> length pointers = length P)"
proof
  show "length P \<le> INT_MAX \<longrightarrow>
        (\<exists>lengths. pml_query pidx P = Some lengths \<and> length lengths = length P)"
  proof
    assume len: "length P \<le> INT_MAX"
    from assms(1) have ne: "bwt pidx \<noteq> []" by (simp add: pml_index_ok_def)
    obtain out where "pml_run pidx (rev P) (u64_dec (bwt_size pidx), 0) = Some out"
        "length out = length P"
      using pml_run_after[OF assms(1), of "(u64_dec (bwt_size pidx), 0)" "rev P"] len init_pos_le[OF assms(1)]
      by auto
    then show "\<exists>lengths. pml_query pidx P = Some lengths \<and> length lengths = length P"
      by (simp add: pml_query_run)
  qed
next
  obtain s where s: "get_last_run_sample midx = Some s"
    using last_run_sample_defined[OF assms(2)] by blast
  from assms(2) have pok: "pml_index_ok midx" by (simp add: ms_index_ok_def)
  obtain out where "run (ms_body midx) (rev P) (u64_dec (bwt_size midx), s) = Some out"
      "length out = length P"
    using run_invariant[where I = "\<lambda>st. fst st \<le> length (bwt midx)" and step = "ms_body midx"
        and sstep = "ms_next_step midx" and emit = snd and st = "(u64_dec (bwt_size midx), s)"
        and cs = "rev P"]
      ms_body_next[OF assms(2)] init_pos_le[OF pok]
    by auto
  then show "\<exists>pointers. ms_query midx P = Some pointers \<and> length pointers = length P"
    by (simp add: ms_query_run s)
qed

theorem queries_total_witness:
  "pml_index_ok banana \<and> ms_index_ok banana \<and> length ''AC'' \<le> INT_MAX \<and>
   (\<exists>lengths. pml_query banana ''AC'' = Some lengths \<and> length lengths = length ''AC'') \<and>
   (\<exists>pointers. ms_query banana ''AC'' = Some pointers \<and> length pointers = length ''AC'')"
proof -
  have len: "length ''AC'' \<le> INT_MAX" by (simp add: INT_MAX_def)
  show ?thesis
    using queries_total[OF banana_ok banana_ms_ok, of "''AC''"] banana_ok banana_ms_ok len
    by blast
qed

text \<open>
  C8 as stated, for patterns of any length, fails for the PML query.  The reference \<open>A$\<close>
  has the BWT \<open>A$\<close>; the index satisfies the invariants.  On the pattern \<open>A$\<close> repeated
  \<open>2^30\<close> times every step matches: the query starts at row 1, whose BWT character is \<open>$\<close>,
  \<open>LF(1, $) = 0\<close>, \<open>bwt[0] = A\<close> and \<open>LF(0, A) = 1\<close>.  After \<open>INT_MAX\<close> steps the counter holds
  \<open>INT_MAX\<close>, and the next \<open>length++\<close> overflows the \<open>int\<close>, which the language leaves
  undefined.
\<close>

theorem queries_total_counterexample:
  "bwt tiny_index = BWT tiny_text \<and> pml_index_ok tiny_index \<and>
   \<not> length (concat (replicate 1073741824 [CHR ''A'', CHR 0x01])) \<le> INT_MAX \<and>
   pml_query tiny_index (concat (replicate 1073741824 [CHR ''A'', CHR 0x01])) = None"
  using tiny_ok tiny_pml_none
  by (simp add: tiny_BWT tiny_fields length_concat sum_list_replicate INT_MAX_def)

section \<open>Claims about the document-aware queries\<close>

text \<open>
  C10.  In the document-aware PML query on a loaded index and document array, for every
  pattern and every position \<open>i\<close> whose character does not occur in the BWT, the emitted
  length is 0 and the emitted document id \<open>doc_nums[i]\<close> is the one emitted for the position
  to its right, \<open>doc_nums[i+1]\<close>, or the initial value \<open>end_runs_doc[r-1]\<close> when \<open>i = m-1\<close>:
  the branch leaves \<open>curr_doc_id\<close> unchanged.  This holds of every result of the query,
  with no bound on the pattern; the query returns a result for every pattern of at most
  \<open>INT_MAX\<close> bytes, the range of the \<open>int\<close> that counts the length.  The document-aware MS
  query on a loaded index returns for every pattern, and emits at such a position the
  sample 0 and the document id \<open>start_runs_doc[run_of_position(0)]\<close>.
\<close>

theorem doc_absent_character:
  assumes ok: "pml_index_ok idx" and dok: "doc_array_ok idx doc_arr"
    and mok: "ms_index_ok midx" and mdok: "doc_array_ok midx mdoc_arr"
  shows "(\<forall>lengths doc_nums.
            pml_query_doc idx doc_arr P = Some (lengths, doc_nums) \<longrightarrow>
            length lengths = length P \<and> length doc_nums = length P \<and>
            (\<forall>i<length P. number_of_letter (bwt idx) (P ! i) = 0 \<longrightarrow>
               lengths ! i = 0 \<and>
               doc_nums ! i =
                 (if i + 1 < length P then doc_nums ! (i + 1)
                  else end_runs_doc doc_arr ! (number_of_runs (bwt idx) - 1)))) \<and>
         (length P \<le> INT_MAX \<longrightarrow>
            (\<exists>lengths doc_nums. pml_query_doc idx doc_arr P = Some (lengths, doc_nums))) \<and>
         (\<exists>pointers doc_nums.
            ms_query_doc midx mdoc_arr P = Some (pointers, doc_nums) \<and>
            (\<forall>i<length P. number_of_letter (bwt midx) (P ! i) = 0 \<longrightarrow>
               pointers ! i = 0 \<and>
               doc_nums ! i = start_runs_doc mdoc_arr ! spec_run_of_position (bwt midx) 0))"
proof (intro conjI)
  show "\<forall>lengths doc_nums.
            pml_query_doc idx doc_arr P = Some (lengths, doc_nums) \<longrightarrow>
            length lengths = length P \<and> length doc_nums = length P \<and>
            (\<forall>i<length P. number_of_letter (bwt idx) (P ! i) = 0 \<longrightarrow>
               lengths ! i = 0 \<and>
               doc_nums ! i =
                 (if i + 1 < length P then doc_nums ! (i + 1)
                  else end_runs_doc doc_arr ! (number_of_runs (bwt idx) - 1)))"
    using pml_query_doc_frame[OF ok dok] by blast
  show "length P \<le> INT_MAX \<longrightarrow>
            (\<exists>lengths doc_nums. pml_query_doc idx doc_arr P = Some (lengths, doc_nums))"
    using pml_query_doc_total[OF ok dok] by blast
  from ms_query_doc_total[OF mok mdok, of P]
  obtain pointers doc_nums where q: "ms_query_doc midx mdoc_arr P = Some (pointers, doc_nums)"
    by blast
  show "\<exists>pointers doc_nums.
            ms_query_doc midx mdoc_arr P = Some (pointers, doc_nums) \<and>
            (\<forall>i<length P. number_of_letter (bwt midx) (P ! i) = 0 \<longrightarrow>
               pointers ! i = 0 \<and>
               doc_nums ! i = start_runs_doc mdoc_arr ! spec_run_of_position (bwt midx) 0)"
    using q ms_query_doc_absent[OF q] by blast
qed

theorem doc_absent_character_witness:
  "pml_index_ok banana \<and> doc_array_ok banana banana_doc \<and> ms_index_ok banana \<and>
   number_of_letter (bwt banana) (''CA'' ! 0) = 0 \<and>
   pml_query_doc banana banana_doc ''CA'' = Some ([0, 1], [1, 1]) \<and>
   ms_query_doc banana banana_doc ''CA'' = Some ([0, 0], [2, 1]) \<and>
   start_runs_doc banana_doc ! spec_run_of_position (bwt banana) 0 = 2"
proof -
  have absent: "number_of_letter (bwt banana) (''CA'' ! 0) = 0" by (simp add: banana_eval)
  note inst = doc_absent_character[OF banana_ok banana_doc_ok banana_ms_ok banana_doc_ok, of "''CA''"]
  from inst obtain pointers doc_nums where
    q: "ms_query_doc banana banana_doc ''CA'' = Some (pointers, doc_nums)" and
    a: "\<forall>i<length ''CA''. number_of_letter (bwt banana) (''CA'' ! i) = 0 \<longrightarrow>
          pointers ! i = 0 \<and>
          doc_nums ! i = start_runs_doc banana_doc ! spec_run_of_position (bwt banana) 0"
    by blast
  from q have e: "doc_nums = [2, 1]" by (simp add: banana_ms_doc_CA)
  from a[rule_format, of 0] absent
  have "start_runs_doc banana_doc ! spec_run_of_position (bwt banana) 0 = 2" by (simp add: e)
  then show ?thesis
    using banana_ok banana_doc_ok banana_ms_ok absent banana_pml_doc_CA banana_ms_doc_CA by simp
qed

section \<open>Claims about the MS lengths\<close>

text \<open>
  C4.  The claim that the forward sweep computes the result of the pseudocode of section
  4.5 for every pointers array the query emits fails on the code.  On the index of the
  reference \<open>0xC8 A 0xC8 B $\<close> and the read \<open>A 0xC8 B\<close> the query emits the pointers
  \<open>[2^64 - 1, 0, 3]\<close> (the trace is that of C3).  At \<open>i = 0\<close> the sum \<open>pos + l = 2^64 - 1\<close> is
  not below \<open>n\<close>, for the source and for the pseudocode, and the length is 0.  At \<open>i = 1\<close> the
  source compares \<open>pos = 0\<close> with the 64-bit sum \<open>pointers[0] + 1 = 0\<close>, finds them equal and
  does not extend, so it stores the length 0 without comparing a character; the pseudocode
  compares 0 with \<open>2^64\<close>, extends over \<open>read[1] = 0xC8 = char_at(0)\<close>, stops at
  \<open>read[2] = B \<noteq> A = char_at(1)\<close> and yields 1.  At \<open>i = 2\<close> both extend over \<open>B\<close> at
  position 3.  The source stores \<open>[0, 0, 1]\<close>, the pseudocode gives \<open>[0, 1, 1]\<close>.  Lemma
  \<open>ms_sweep_follows_pseudocode\<close> shows that the sweep and the pseudocode agree whenever no
  pointer is within \<open>m\<close> of \<open>2^64\<close>.
\<close>

theorem sweep_wrapped_pointer:
  "bwt hahb = BWT hahb_text \<and>
   matching_statistics hahb hahb_text [CHR ''A'', CHR 0xC8, CHR ''B'']
     = Some ([0, 0, 1], [18446744073709551615, 0, 3]) \<and>
   spec_lengths [CHR ''A'', CHR 0xC8, CHR ''B''] (\<lambda>k. hahb_text ! k) (length hahb_text)
     [18446744073709551615, 0, 3] = [0, 1, 1]"
  using hahb_sweep hahb_sweep_spec by (simp add: hahb_BWT hahb_fields)

section \<open>Claims about the construction\<close>

text \<open>
  C6.  The claim that \<open>build_F_\<close> leaves in \<open>terminator_position\<close> the BWT position of the
  terminator fails on the code: the counter \<open>i\<close> that is stored advances by one per run
  head, not by the run's length, so the value is the index of the terminator's run.  For
  the BWT of \<open>BANANA$\<close>, with heads \<open>A N B $ A\<close> and lengths \<open>1 2 1 1 2\<close>, it is 3; the BWT
  has \<open>B\<close> at position 3 and the terminator at position 4.
\<close>

theorem build_F_terminator_position_is_run_index:
  "snd (build_F_runs (CHR 0x01) banana_heads banana_lens 0) = 3 \<and>
   rle_decode banana_heads banana_lens = banana_bwt \<and>
   banana_bwt ! 3 = CHR ''B'' \<and> banana_bwt ! 4 = CHR 0x01"
proof -
  have "last_terminator_run (CHR 0x01) banana_heads 0 0 = 3"
    by (simp add: banana_heads_def u64_def)
  moreover have "rle_decode banana_heads banana_lens = banana_bwt"
    by (simp add: banana_heads_def banana_lens_def banana_bwt_def numeral_2_eq_2)
  ultimately show ?thesis
    by (simp add: build_F_runs_terminator banana_bwt_def)
qed

section \<open>Claims about loading the samples\<close>

text \<open>
  C7 (as amended).  Loading a suffix-array sample file fails if the file cannot be opened
  or stat'ed, if its size is not a multiple of the 5-byte stride, if the integer quotient
  of its size by 10 is not \<open>r\<close> (every size other than \<open>2 * r * 5\<close> and \<open>2 * r * 5 + 5\<close>), and
  if one of the \<open>r\<close> values to store needs more bits than \<open>n\<close> (the assertion
  \<open>bitsize(val) \<le> log_n\<close>); a file of exactly \<open>2 * r * 5\<close> bytes all of whose values fit is
  loaded; and on every successful load exactly \<open>r\<close> values are stored, the \<open>k\<close>-th equal to
  \<open>right - 1\<close> for the second component of the \<open>k\<close>-th pair, or to \<open>n - 1\<close> when that
  component is 0.
\<close>

theorem read_samples_outcomes:
  "read_samples Cannot_open r' n = Inl Open_failed \<and>
   read_samples Cannot_stat r' n = Inl Stat_failed \<and>
   (length bytes mod 5 \<noteq> 0 \<longrightarrow> read_samples (Contents bytes) r' n = Inl Invalid_file) \<and>
   (length bytes mod 5 = 0 \<and> length bytes div 10 \<noteq> r' \<longrightarrow>
      read_samples (Contents bytes) r' n = Inl Assertion_failed) \<and>
   (length bytes mod 5 = 0 \<and> length bytes div 10 = r' \<and>
    (\<exists>k<r'. \<not> bitsize (sample_value bytes n k) \<le> bitsize n) \<longrightarrow>
      read_samples (Contents bytes) r' n = Inl Assertion_failed) \<and>
   (length bytes = 2 * r' * 5 \<longrightarrow>
      read_samples (Contents bytes) r' n =
        (if \<forall>k<r'. bitsize (sample_value bytes n k) \<le> bitsize n
         then Inr (map (sample_value bytes n) [0..<r'])
         else Inl Assertion_failed)) \<and>
   (\<forall>samples. read_samples sf r' n = Inr samples \<longrightarrow>
      length samples = r' \<and>
      (\<exists>contents. sf = Contents contents \<and>
         (\<forall>k<r'. samples ! k = sample_value contents n k)))"
proof (intro conjI impI allI)
  show "read_samples Cannot_open r' n = Inl Open_failed" by (simp add: read_samples_def)
  show "read_samples Cannot_stat r' n = Inl Stat_failed" by (simp add: read_samples_def)
next
  assume "length bytes mod 5 \<noteq> 0"
  then show "read_samples (Contents bytes) r' n = Inl Invalid_file"
    by (simp add: read_samples_Contents)
next
  assume a: "length bytes mod 5 = 0 \<and> length bytes div 10 \<noteq> r'"
  then show "read_samples (Contents bytes) r' n = Inl Assertion_failed"
    by (simp add: read_samples_Contents)
next
  assume a: "length bytes mod 5 = 0 \<and> length bytes div 10 = r' \<and>
    (\<exists>k<r'. \<not> bitsize (sample_value bytes n k) \<le> bitsize n)"
  then have m: "length bytes mod 5 = 0" and d: "length bytes div 10 = r'"
    and w: "\<not> (\<forall>k<r'. bitsize (sample_value bytes n k) \<le> bitsize n)"
    by blast+
  show "read_samples (Contents bytes) r' n = Inl Assertion_failed"
    using w by (simp only: read_samples_exact[OF m d] if_False)
next
  assume e: "length bytes = 2 * r' * 5"
  then have "length bytes mod 5 = 0" by simp
  moreover from e have "length bytes div 10 = r'" by simp
  ultimately show "read_samples (Contents bytes) r' n =
        (if \<forall>k<r'. bitsize (sample_value bytes n k) \<le> bitsize n
         then Inr (map (sample_value bytes n) [0..<r'])
         else Inl Assertion_failed)"
    by (rule read_samples_exact)
next
  fix samples assume ok: "read_samples sf r' n = Inr samples"
  have "sf \<noteq> Cannot_open" "sf \<noteq> Cannot_stat"
    using ok by (auto simp: read_samples_def)
  then obtain contents where f: "sf = Contents contents"
    by (cases sf) simp_all
  have m: "length contents mod 5 = 0"
  proof (rule ccontr)
    assume "length contents mod 5 \<noteq> 0"
    then have "read_samples (Contents contents) r' n = Inl Invalid_file"
      by (simp add: read_samples_Contents)
    with ok f show False by simp
  qed
  have d: "length contents div 10 = r'"
  proof (rule ccontr)
    assume "length contents div 10 \<noteq> r'"
    then have "read_samples (Contents contents) r' n = Inl Assertion_failed"
      using m by (simp add: read_samples_Contents)
    with ok f show False by simp
  qed
  have s: "samples = map (sample_value contents n) [0..<r']"
  proof (cases "\<forall>k<r'. bitsize (sample_value contents n k) \<le> bitsize n")
    case True
    then have "read_samples (Contents contents) r' n = Inr (map (sample_value contents n) [0..<r'])"
      by (simp add: read_samples_exact[OF m d])
    with ok f show ?thesis by simp
  next
    case False
    then have "read_samples (Contents contents) r' n = Inl Assertion_failed"
      by (simp add: read_samples_exact[OF m d])
    with ok f show ?thesis by simp
  qed
  show "length samples = r'" using s by simp
  show "\<exists>contents. sf = Contents contents \<and> (\<forall>k<r'. samples ! k = sample_value contents n k)"
    using f s by simp
qed

theorem read_samples_outcomes_witness:
  "length two_samples = 2 * 2 * 5 \<and>
   read_samples (Contents two_samples) 2 7 = Inr [5, 6] \<and>
   read_samples (Contents (take 19 two_samples)) 2 7 = Inl Invalid_file \<and>
   read_samples (Contents (take 10 two_samples)) 2 7 = Inl Assertion_failed \<and>
   read_samples (Contents (two_samples @ replicate 5 (CHR 0x00))) 1 7 = Inl Assertion_failed \<and>
   read_samples (Contents (wide_sample @ replicate 5 (CHR 0x00))) 1 7 = Inl Assertion_failed"
proof -
  have l: "length two_samples = 2 * 2 * 5" by (simp add: two_samples_def)
  have fit: "\<forall>k<2. bitsize (sample_value two_samples 7 k) \<le> bitsize 7"
    by (simp add: less_2_cases_iff two_samples_values bitsize_values)
  have vals: "map (sample_value two_samples 7) [0..<2] = [5, 6]"
    by (simp add: numeral_2_eq_2 two_samples_values)
  have "length two_samples = 2 * 2 * 5 \<longrightarrow>
      read_samples (Contents two_samples) 2 7 =
        (if \<forall>k<2. bitsize (sample_value two_samples 7 k) \<le> bitsize 7
         then Inr (map (sample_value two_samples 7) [0..<2])
         else Inl Assertion_failed)"
    by (rule read_samples_outcomes[of 2 7 two_samples Cannot_open,
          THEN conjunct2, THEN conjunct2, THEN conjunct2, THEN conjunct2, THEN conjunct2,
          THEN conjunct1])
  then have a: "read_samples (Contents two_samples) 2 7 = Inr [5, 6]"
    using l fit by (simp add: vals)
  have n5: "length (take 19 two_samples) mod 5 \<noteq> 0" by (simp add: two_samples_def)
  have "length (take 19 two_samples) mod 5 \<noteq> 0 \<longrightarrow>
      read_samples (Contents (take 19 two_samples)) 2 7 = Inl Invalid_file"
    by (rule read_samples_outcomes[of 2 7 "take 19 two_samples" Cannot_open,
          THEN conjunct2, THEN conjunct2, THEN conjunct1])
  then have b: "read_samples (Contents (take 19 two_samples)) 2 7 = Inl Invalid_file"
    using n5 by (rule mp)
  have n10: "length (take 10 two_samples) mod 5 = 0 \<and> length (take 10 two_samples) div 10 \<noteq> 2"
    by (simp add: two_samples_def)
  have "length (take 10 two_samples) mod 5 = 0 \<and> length (take 10 two_samples) div 10 \<noteq> 2 \<longrightarrow>
      read_samples (Contents (take 10 two_samples)) 2 7 = Inl Assertion_failed"
    by (rule read_samples_outcomes[of 2 7 "take 10 two_samples" Cannot_open,
          THEN conjunct2, THEN conjunct2, THEN conjunct2, THEN conjunct1])
  then have c: "read_samples (Contents (take 10 two_samples)) 2 7 = Inl Assertion_failed"
    using n10 by (rule mp)
  let ?long = "two_samples @ replicate 5 (CHR 0x00)"
  have n25: "length ?long mod 5 = 0 \<and> length ?long div 10 \<noteq> 1"
    by (simp add: two_samples_def)
  have "length ?long mod 5 = 0 \<and> length ?long div 10 \<noteq> 1 \<longrightarrow>
      read_samples (Contents ?long) 1 7 = Inl Assertion_failed"
    by (rule read_samples_outcomes[of 1 7 ?long Cannot_open,
          THEN conjunct2, THEN conjunct2, THEN conjunct2, THEN conjunct1])
  then have d: "read_samples (Contents ?long) 1 7 = Inl Assertion_failed"
    using n25 by (rule mp)
  let ?wide = "wide_sample @ replicate 5 (CHR 0x00)"
  have v: "sample_value ?wide 7 0 = 8" by (simp add: sample_value_def wide_sample_def)
  have n15: "length ?wide mod 5 = 0 \<and> length ?wide div 10 = 1 \<and>
      (\<exists>k<1. \<not> bitsize (sample_value ?wide 7 k) \<le> bitsize 7)"
  proof (intro conjI)
    show "length ?wide mod 5 = 0" "length ?wide div 10 = 1" by (simp_all add: wide_sample_def)
    have "\<not> bitsize (sample_value ?wide 7 0) \<le> bitsize 7" by (simp only: v bitsize_values)
    then show "\<exists>k<1. \<not> bitsize (sample_value ?wide 7 k) \<le> bitsize 7" by blast
  qed
  have "length ?wide mod 5 = 0 \<and> length ?wide div 10 = 1 \<and>
      (\<exists>k<1. \<not> bitsize (sample_value ?wide 7 k) \<le> bitsize 7) \<longrightarrow>
      read_samples (Contents ?wide) 1 7 = Inl Assertion_failed"
    by (rule read_samples_outcomes[of 1 7 ?wide Cannot_open,
          THEN conjunct2, THEN conjunct2, THEN conjunct2, THEN conjunct2, THEN conjunct1])
  then have e: "read_samples (Contents ?wide) 1 7 = Inl Assertion_failed"
    using n15 by (rule mp)
  show ?thesis using l a b c d e by (intro conjI)
qed

text \<open>
  C7 as stated, with failure exactly when the file cannot be opened or stat'ed or its size
  is not \<open>2 * r * 5\<close>, fails in both directions.  A file of \<open>2 * 1 * 5\<close> bytes whose pair has
  the second component 9 is rejected for \<open>n = 7\<close>, since the value 8 needs four bits and \<open>n\<close>
  three.  A file of 15 bytes is accepted for \<open>r = 1\<close>: 15 is a multiple of 5, the integer
  quotient \<open>15 / 10\<close> is 1, and the loop stops at the incomplete second pair.
\<close>

theorem read_samples_counterexample:
  "length wide_sample = 2 * 1 * 5 \<and>
   read_samples (Contents wide_sample) 1 7 = Inl Assertion_failed \<and>
   length (take 15 two_samples) \<noteq> 2 * 1 * 5 \<and>
   read_samples (Contents (take 15 two_samples)) 1 7 = Inr [5]"
proof -
  have l: "length wide_sample = 2 * 1 * 5" by (simp add: wide_sample_def)
  have v: "sample_value wide_sample 7 0 = 8" by (simp add: sample_value_def wide_sample_def)
  have a: "read_samples (Contents wide_sample) 1 7 = Inl Assertion_failed"
    using read_samples_exact[of wide_sample 1 7] l by (simp add: v bitsize_values)
  have m: "length (take 15 two_samples) mod 5 = 0" "length (take 15 two_samples) div 10 = 1"
    by (simp_all add: two_samples_def)
  have v': "sample_value (take 15 two_samples) 7 0 = 5"
    by (simp add: sample_value_def two_samples_def)
  have b: "read_samples (Contents (take 15 two_samples)) 1 7 = Inr [5]"
    using read_samples_exact[OF m, of 7] by (simp add: v' bitsize_values)
  show ?thesis using l a b by (simp add: two_samples_def)
qed

subsection \<open>Round trip of the serialized index\<close>

text \<open>
  C9.  \<open>serialize\<close> writes \<open>terminator_position\<close>, \<open>F\<close>, the RLBWT, \<open>samples_last\<close>, the
  thresholds and \<open>samples_start\<close>, in this order.  \<open>load\<close>, called on any object, reads them
  back in the same order and sets \<open>r\<close> to the number of runs of the BWT it has read; it leaves
  nothing in the stream but what followed the index.  The loaded index has the members of
  the written one, and every query (the MS query, the one with documents, and the forward
  sweep) returns on it what it returns on the written one.  The index that is written has
  \<open>r\<close> equal to the number of runs of its BWT, as the constructor and \<open>load\<close> set it, and the
  serializers of its members invert each other.
\<close>

theorem serialize_load_round_trip:
  assumes "members_round_trip c idx" and "r idx = number_of_runs (bwt idx)"
    and "terminator_position idx < 18446744073709551616"
  shows "serialize c idx =
           write_word (terminator_position idx) @ put_F c (F idx) @ put_bwt c (bwt idx) @
           put_int_vector c (samples_last idx) @ put_thresholds c (bwt idx) (thresholds idx) @
           put_int_vector c (samples_start idx) \<and>
         (\<exists>idx'. load c idx0 (serialize c idx @ s) = Some (idx', s) \<and>
            terminator_position idx' = terminator_position idx \<and> F idx' = F idx \<and>
            bwt idx' = bwt idx \<and> r idx' = number_of_runs (bwt idx) \<and>
            samples_last idx' = samples_last idx \<and> thresholds idx' = thresholds idx \<and>
            samples_start idx' = samples_start idx \<and> num_runs idx' = num_runs idx0 \<and>
            (\<forall>P. ms_query idx' P = ms_query idx P) \<and>
            (\<forall>ra P. matching_statistics idx' ra P = matching_statistics idx ra P) \<and>
            (\<forall>doc_arr P. ms_query_doc idx' doc_arr P = ms_query_doc idx doc_arr P))"
proof
  show "serialize c idx =
           write_word (terminator_position idx) @ put_F c (F idx) @ put_bwt c (bwt idx) @
           put_int_vector c (samples_last idx) @ put_thresholds c (bwt idx) (thresholds idx) @
           put_int_vector c (samples_start idx)"
    by (simp add: serialize_def)
next
  let ?idx' = "idx0\<lparr> terminator_position := terminator_position idx, F := F idx, bwt := bwt idx,
                 r := number_of_runs (bwt idx), samples_last := samples_last idx,
                 thresholds := thresholds idx, samples_start := samples_start idx \<rparr>"
  have l: "load c idx0 (serialize c idx @ s) = Some (?idx', s)"
    using assms(1,3) by (rule load_serialize)
  have e: "bwt ?idx' = bwt idx" "F ?idx' = F idx" "r ?idx' = r idx"
    "thresholds ?idx' = thresholds idx" "samples_start ?idx' = samples_start idx"
    "samples_last ?idx' = samples_last idx"
    using assms(2) by simp_all
  have q: "\<And>P. ms_query ?idx' P = ms_query idx P"
    using e by (rule ms_query_cong)
  have qd: "\<And>doc_arr P. ms_query_doc ?idx' doc_arr P = ms_query_doc idx doc_arr P"
    using e by (rule ms_query_doc_cong)
  have m: "\<And>ra P. matching_statistics ?idx' ra P = matching_statistics idx ra P"
    by (simp only: matching_statistics_def q)
  show "\<exists>idx'. load c idx0 (serialize c idx @ s) = Some (idx', s) \<and>
            terminator_position idx' = terminator_position idx \<and> F idx' = F idx \<and>
            bwt idx' = bwt idx \<and> r idx' = number_of_runs (bwt idx) \<and>
            samples_last idx' = samples_last idx \<and> thresholds idx' = thresholds idx \<and>
            samples_start idx' = samples_start idx \<and> num_runs idx' = num_runs idx0 \<and>
            (\<forall>P. ms_query idx' P = ms_query idx P) \<and>
            (\<forall>ra P. matching_statistics idx' ra P = matching_statistics idx ra P) \<and>
            (\<forall>doc_arr P. ms_query_doc idx' doc_arr P = ms_query_doc idx doc_arr P)"
    using l q m qd by (intro exI[of _ ?idx']) simp
qed

theorem serialize_load_round_trip_witness:
  "members_round_trip plain_codecs banana \<and> r banana = number_of_runs (bwt banana) \<and>
   terminator_position banana < 18446744073709551616 \<and>
   (\<exists>idx'. load plain_codecs fresh_index (serialize plain_codecs banana) = Some (idx', []) \<and>
      bwt idx' = banana_bwt \<and> ms_query idx' ''ANA'' = Some [1, 2, 0])"
proof -
  have rr: "r banana = number_of_runs (bwt banana)"
    by (simp add: number_of_runs_def banana_eval)
  have tp: "terminator_position banana < 18446744073709551616" by (simp add: banana_def)
  from serialize_load_round_trip[OF banana_round_trip rr tp, of fresh_index "[]"]
  obtain idx' where "load plain_codecs fresh_index (serialize plain_codecs banana @ []) = Some (idx', [])"
    "bwt idx' = bwt banana" "\<forall>P. ms_query idx' P = ms_query banana P"
    by blast
  then have "load plain_codecs fresh_index (serialize plain_codecs banana) = Some (idx', []) \<and>
      bwt idx' = banana_bwt \<and> ms_query idx' ''ANA'' = Some [1, 2, 0]"
    by (simp add: banana_fields banana_ms_ANA)
  then show ?thesis using banana_round_trip rr tp by blast
qed

section \<open>Claims about the PML lengths\<close>

text \<open>
  C1 (as amended).  For every reference text \<open>T\<close> that ends with a terminator smaller than
  all its other bytes, every index with the BWT of \<open>T\<close> that satisfies the invariants of
  section 3, and every pattern \<open>P\<close> without the terminator (of length at most \<open>INT_MAX\<close>,
  the range of the counter), the PML query returns one length per position, and for every
  position \<open>i\<close> the substring of \<open>P\<close> of length \<open>lengths[i]\<close> starting at \<open>i\<close> occurs in \<open>T\<close>:
  \<open>lengths[i]\<close> is at most the length of the longest substring of \<open>P\<close> starting at \<open>i\<close> that
  occurs in \<open>T\<close>.  The values of the thresholds play no part in this bound.
\<close>

theorem pml_lengths_lower_bound:
  assumes vt: "valid_text t T" and b: "bwt idx = BWT T" and ok: "pml_index_ok idx"
    and nt: "t \<notin> set P" and m: "length P \<le> INT_MAX"
  shows "\<exists>lengths. pml_query idx P = Some lengths \<and> length lengths = length P \<and>
     (\<forall>i<length P. lengths ! i \<le> length P - i \<and>
        occurs (take (lengths ! i) (drop i P)) T \<and>
        lengths ! i \<le> longest_match T P i)"
proof -
  let ?st = "(length (bwt idx) - 1, 0::nat)"
  have "fst ?st \<le> length (bwt idx)" "snd ?st + length (rev P) \<le> INT_MAX" using m by simp_all
  from pml_run_after[OF ok this]
  obtain out where out: "pml_run idx (rev P) ?st = Some out" "length out = length P"
    "\<forall>i<length P. out ! i = snd (pml_after idx (take (Suc i) (rev P)) ?st)"
    by auto
  have q: "pml_query idx P = Some (rev out)"
    using out(1) by (simp add: pml_query_run init_pos[OF ok])
  have inv0: "pml_inv T [] ?st" using b by (simp add: pml_inv_def)
  have "\<forall>i<length P. rev out ! i \<le> length P - i \<and>
        occurs (take (rev out ! i) (drop i P)) T \<and> rev out ! i \<le> longest_match T P i"
  proof (intro allI impI)
    fix i assume i: "i < length P"
    let ?k = "length P - Suc i"
    let ?cs = "take (Suc ?k) (rev P)"
    have k: "?k < length P" using i by simp
    have r: "rev out ! i = snd (pml_after idx ?cs ?st)"
      using out(2,3) i k by (simp add: rev_nth)
    have ncs: "t \<notin> set ?cs" using nt by (metis in_set_takeD set_rev)
    have "pml_inv T (rev ?cs @ []) (pml_after idx ?cs ?st)"
      by (rule pml_after_inv[OF vt b ok inv0 ncs]) simp
    moreover have "rev ?cs = drop i P" using i by (simp add: rev_take)
    ultimately have "pml_inv T (drop i P) (pml_after idx ?cs ?st)" by simp
    then have "pml_inv T (drop i P) (fst (pml_after idx ?cs ?st), rev out ! i)"
      using r by simp
    moreover have "t \<notin> set (drop i P)" using nt by (meson in_set_dropD)
    ultimately have o: "rev out ! i \<le> length (drop i P) \<and> occurs (take (rev out ! i) (drop i P)) T"
      using vt by (intro inv_occurs)
    then show "rev out ! i \<le> length P - i \<and>
        occurs (take (rev out ! i) (drop i P)) T \<and> rev out ! i \<le> longest_match T P i"
      using longest_match_ge[of "rev out ! i" P i T] by simp
  qed
  then show ?thesis using q out(2) by simp
qed

theorem pml_lengths_lower_bound_witness:
  "valid_text (CHR 0x01) banana_text \<and> bwt banana = BWT banana_text \<and> pml_index_ok banana \<and>
   CHR 0x01 \<notin> set ''ANA'' \<and> length ''ANA'' \<le> INT_MAX \<and>
   pml_query banana ''ANA'' = Some [1, 0, 1] \<and>
   occurs ''A'' banana_text \<and> 1 \<le> longest_match banana_text ''ANA'' 0"
proof -
  have b: "bwt banana = BWT banana_text" by (simp add: banana_BWT banana_fields)
  have nt: "CHR 0x01 \<notin> set ''ANA''" by simp
  have m: "length ''ANA'' \<le> INT_MAX" by (simp add: INT_MAX_def)
  from pml_lengths_lower_bound[OF banana_valid b banana_ok nt m]
  obtain lengths where l: "pml_query banana ''ANA'' = Some lengths"
    "\<forall>i<length ''ANA''. lengths ! i \<le> length ''ANA'' - i \<and>
        occurs (take (lengths ! i) (drop i ''ANA'')) banana_text \<and>
        lengths ! i \<le> longest_match banana_text ''ANA'' i"
    by blast
  from l(1) have e: "lengths = [1, 0, 1]" by (simp add: banana_pml_ANA)
  have "occurs (take (lengths ! 0) (drop 0 ''ANA'')) banana_text \<and>
        lengths ! 0 \<le> longest_match banana_text ''ANA'' 0"
    using l(2)[rule_format, of 0] by simp
  then have "occurs ''A'' banana_text \<and> 1 \<le> longest_match banana_text ''ANA'' 0"
    by (simp add: e)
  then show ?thesis using banana_valid b banana_ok nt m banana_pml_ANA by simp
qed

text \<open>
  C1 as stated, with equality, fails.  For \<open>T = BANANA$\<close> and \<open>P = ANA\<close> the longest
  substrings of \<open>P\<close> occurring in \<open>T\<close> have the lengths \<open>[3, 2, 1]\<close>, and the PML query
  returns \<open>[1, 0, 1]\<close>.  The query starts at the last row, which ends in \<open>A\<close>; its LF
  step leads to row 3, whose BWT character is \<open>B\<close>, so the step on \<open>N\<close> resets the length to
  0 and moves to the last \<open>N\<close> of the BWT.  No threshold is read on the way, so the result is
  the same whatever thresholds the index holds.
\<close>

theorem pml_lengths_counterexample:
  "valid_text (CHR 0x01) banana_text \<and> bwt banana = BWT banana_text \<and> pml_index_ok banana \<and>
   CHR 0x01 \<notin> set ''ANA'' \<and>
   (\<forall>thr. pml_query (banana\<lparr>thresholds := thr\<rparr>) ''ANA'' = Some [1, 0, 1]) \<and>
   map (longest_match banana_text ''ANA'') [0, 1, 2] = [3, 2, 1]"
  using banana_valid banana_ok banana_lm banana_any_thresholds
  by (simp add: banana_BWT banana_fields)

end
